theory Spec2Isabelle
  imports Main "HOL-Library.Word"
begin

unbundle bit_operations_syntax

section \<open>The bitstream of BsBitstream.h\<close>

text \<open>
  The class \<open>Bitstream\<close> of \<open>Source/Foundation/bsfUtility/Utility/BsBitstream.h\<close>.
  The storage quantum \<open>QuantType\<close> is \<open>uint8_t\<close>; the cursor, the length and the
  capacity are \<open>uint32_t\<close> and wrap around as in the source.

  Failures are values: a failed \<open>assert\<close> is \<open>AssertFailed\<close>, and an access to a byte
  outside the buffer it addresses (undefined behaviour in the source) is \<open>OutOfBounds\<close>.
\<close>

type_synonym QuantType = "8 word"
type_synonym uint32 = "32 word"

datatype error = AssertFailed | OutOfBounds

record Bitstream =
  mData :: "QuantType list"
  mMaxBits :: uint32
  mNumBits :: uint32
  mOwnsMemory :: bool
  mCursor :: uint32

text \<open>The null pointer of \<open>mData = nullptr\<close> is the empty buffer.\<close>

definition BYTES_PER_QUANT :: uint32 where
  "BYTES_PER_QUANT = 1"

definition BITS_PER_QUANT :: uint32 where
  "BITS_PER_QUANT = BYTES_PER_QUANT * 8"

text \<open>
  Modelled from the spec: \<open>Bitwise::bitsLog2\<close> (BsBitwise.h) is missing from the sources;
  the quantum is one byte of 8 bits, whose base-2 logarithm is 3 (the value the class's
  own \<open>LOG2\<close> helper gives for a one-byte type).
\<close>

definition BITS_PER_QUANT_LOG2 :: nat where
  "BITS_PER_QUANT_LOG2 = 3"

text \<open>
  Modelled from the spec: \<open>Math::divideAndRoundUp\<close> (BsMath.h) is missing from the
  sources; the spec describes it as rounding up to a whole number of quanta,
  \<open>ceil(n / d)\<close>.
\<close>

definition divideAndRoundUp :: "uint32 \<Rightarrow> uint32 \<Rightarrow> uint32" where
  "divideAndRoundUp n d = word_of_nat ((unat n + unat d - 1) div unat d)"

text \<open>
  Modelled from the spec: \<open>Math::clamp\<close> (BsMath.h) is missing from the sources; the
  spec describes the result as the value clamped to \<open>[minval, maxval]\<close>. It is used at
  type \<open>int32_t\<close>, whose values are the integers \<open>sint\<close> reads from a 32-bit word.
\<close>

definition clamp :: "int \<Rightarrow> int \<Rightarrow> int \<Rightarrow> int" where
  "clamp val minval maxval = max (min val maxval) minval"

text \<open>
  Modelled from the spec: the allocator \<open>bs_allocN\<close> is missing from the sources.
  It hands out \<open>n\<close> bytes whose content nothing initialises; that content is the
  parameter \<open>junk\<close> (byte \<open>i\<close> of the new block is \<open>junk i\<close>).
\<close>

definition bs_allocN :: "(nat \<Rightarrow> QuantType) \<Rightarrow> nat \<Rightarrow> QuantType list" where
  "bs_allocN junk n = map junk [0..<n]"

text \<open>
  \<open>memcpy(&dst[doff], &src[soff], n)\<close>: copying from or to bytes outside either
  buffer is \<open>OutOfBounds\<close>.
\<close>

definition memcpy ::
  "QuantType list \<Rightarrow> nat \<Rightarrow> QuantType list \<Rightarrow> nat \<Rightarrow> nat \<Rightarrow> error + QuantType list" where
  "memcpy dst doff src soff n =
     (if doff + n \<le> length dst \<and> soff + n \<le> length src
      then Inr (take doff dst @ take n (drop soff src) @ drop (doff + n) dst)
      else Inl OutOfBounds)"

subsection \<open>Construction\<close>

definition Bitstream_default :: Bitstream where
  "Bitstream_default =
     \<lparr>mData = [], mMaxBits = 0, mNumBits = 0, mOwnsMemory = True, mCursor = 0\<rparr>"

definition realloc :: "Bitstream \<Rightarrow> (nat \<Rightarrow> QuantType) \<Rightarrow> uint32 \<Rightarrow> error + Bitstream" where
  "realloc s junk numBits0 =
     (let numBits = divideAndRoundUp numBits0 BITS_PER_QUANT * BITS_PER_QUANT in
      if numBits \<noteq> mMaxBits s then
        if \<not> numBits > mMaxBits s then Inl AssertFailed
        else
          let numQuants = divideAndRoundUp numBits BITS_PER_QUANT;
              buffer = bs_allocN junk (unat numQuants)
          in if mData s \<noteq> [] then
               let numBytes = divideAndRoundUp (mMaxBits s) BITS_PER_QUANT * BYTES_PER_QUANT
               in case memcpy buffer 0 (mData s) 0 (unat numBytes) of
                    Inl e \<Rightarrow> Inl e
                  | Inr buffer' \<Rightarrow> Inr (s\<lparr>mData := buffer', mMaxBits := numBits\<rparr>)
             else Inr (s\<lparr>mData := buffer, mMaxBits := numBits\<rparr>)
      else Inr s)"

definition reallocIfNeeded :: "Bitstream \<Rightarrow> (nat \<Rightarrow> QuantType) \<Rightarrow> uint32 \<Rightarrow> error + Bitstream" where
  "reallocIfNeeded s junk numBits =
     (if numBits > mMaxBits s then
        if mOwnsMemory s then
          let newMaxBits = numBits + 4 * BITS_PER_QUANT + numBits div 2
          in realloc s junk newMaxBits
        else Inl AssertFailed
      else Inr s)"

definition Bitstream_capacity :: "(nat \<Rightarrow> QuantType) \<Rightarrow> uint32 \<Rightarrow> error + Bitstream" where
  "Bitstream_capacity junk capacity = realloc Bitstream_default junk (capacity * 8)"

definition Bitstream_external :: "QuantType list \<Rightarrow> uint32 \<Rightarrow> Bitstream" where
  "Bitstream_external data count =
     \<lparr>mData = data, mMaxBits = count, mNumBits = count, mOwnsMemory = False, mCursor = 0\<rparr>"

definition tell :: "Bitstream \<Rightarrow> uint32" where
  "tell s = mCursor s"

definition eof :: "Bitstream \<Rightarrow> bool" where
  "eof s = (mCursor s \<ge> mNumBits s)"

definition size_bits :: "Bitstream \<Rightarrow> uint32" where
  "size_bits s = mNumBits s"

definition capacity :: "Bitstream \<Rightarrow> uint32" where
  "capacity s = mMaxBits s"

subsection \<open>Writing\<close>

text \<open>
  The loop of \<open>writeBits\<close>. \<open>src\<close> and \<open>si\<close> are the source pointer \<open>data\<close> (the
  buffer it points into and its offset), \<open>buf\<close> is \<open>mData\<close>. Inside the loop \<open>count\<close>
  only decreases and \<open>destQuant\<close> stays below \<open>2 ^ 30\<close>, so no 32-bit operation of
  the loop wraps and both are carried as natural numbers. The two stores compute in
  32 bits (integer promotion) and truncate to the quantum.
\<close>

function writeLoop ::
  "nat \<Rightarrow> uint32 \<Rightarrow> QuantType list \<Rightarrow> nat \<Rightarrow> QuantType list \<Rightarrow> nat \<Rightarrow> nat
   \<Rightarrow> error + QuantType list" where
  "writeLoop destBitsMod destMask src si buf destQuant count =
     (if count = 0 then Inr buf
      else if \<not> si < length src then Inl OutOfBounds
      else
        let quant = src ! si in
        if \<not> destQuant < length buf then Inl OutOfBounds
        else
          let buf1 = buf[destQuant :=
                ucast (push_bit destBitsMod (ucast quant :: uint32)
                       OR (ucast (buf ! destQuant) AND destMask))];
              writtenBits = unat BITS_PER_QUANT - destBitsMod
          in if count > writtenBits then
               if \<not> destQuant + 1 < length buf1 then Inl OutOfBounds
               else
                 let buf2 = buf1[destQuant + 1 :=
                       ucast (drop_bit writtenBits (ucast quant :: uint32)
                              OR (ucast (buf1 ! (destQuant + 1)) AND NOT destMask))]
                 in writeLoop destBitsMod destMask src (si + 1) buf2 (destQuant + 1)
                      (count - min (unat BITS_PER_QUANT) count)
             else writeLoop destBitsMod destMask src (si + 1) buf1 (destQuant + 1)
                    (count - min (unat BITS_PER_QUANT) count))"
  by pat_completeness auto

termination
  by (relation "measure (\<lambda>(destBitsMod, destMask, src, si, buf, destQuant, count). count)")
     (auto simp: BITS_PER_QUANT_def BYTES_PER_QUANT_def)

declare writeLoop.simps [simp del]

definition writeBits ::
  "Bitstream \<Rightarrow> (nat \<Rightarrow> QuantType) \<Rightarrow> QuantType list \<Rightarrow> uint32 \<Rightarrow> error + Bitstream" where
  "writeBits s junk data count =
     (if count = 0 then Inr s
      else
        let newCursor = mCursor s + count in
        case reallocIfNeeded s junk newCursor of
          Inl e \<Rightarrow> Inl e
        | Inr s1 \<Rightarrow>
            let destBitsMod = unat (mCursor s1 AND (BITS_PER_QUANT - 1));
                destQuant = unat (drop_bit BITS_PER_QUANT_LOG2 (mCursor s1));
                destMask = push_bit (unat BITS_PER_QUANT) 1 - 1;
                written =
                  (if destBitsMod = 0 then
                     let numQuants = unat (drop_bit BITS_PER_QUANT_LOG2 count) in
                     (case memcpy (mData s1) destQuant data 0 (numQuants * unat BYTES_PER_QUANT) of
                        Inl e \<Rightarrow> Inl e
                      | Inr buf \<Rightarrow>
                          writeLoop destBitsMod destMask data numQuants buf
                            (destQuant + numQuants)
                            (unat count - numQuants * unat BITS_PER_QUANT))
                   else writeLoop destBitsMod destMask data 0 (mData s1) destQuant (unat count))
            in (case written of
                  Inl e \<Rightarrow> Inl e
                | Inr buf \<Rightarrow>
                    Inr (s1\<lparr>mData := buf, mCursor := newCursor,
                            mNumBits := max (mNumBits s1) newCursor\<rparr>)))"

text \<open>\<open>write(const T&)\<close>: the value is the list of its \<open>sizeof(T)\<close> bytes.\<close>

definition write_value ::
  "Bitstream \<Rightarrow> (nat \<Rightarrow> QuantType) \<Rightarrow> QuantType list \<Rightarrow> error + Bitstream" where
  "write_value s junk val = writeBits s junk val (word_of_nat (length val) * 8)"

definition write_bool :: "Bitstream \<Rightarrow> (nat \<Rightarrow> QuantType) \<Rightarrow> bool \<Rightarrow> error + Bitstream" where
  "write_bool s junk val =
     (case reallocIfNeeded s junk (mCursor s + 1) of
        Inl e \<Rightarrow> Inl e
      | Inr s1 \<Rightarrow>
          let destBitsMod = unat (mCursor s1 AND (BITS_PER_QUANT - 1));
              destQuant = unat (drop_bit BITS_PER_QUANT_LOG2 (mCursor s1))
          in if \<not> destQuant < length (mData s1) then Inl OutOfBounds
             else
               let q = mData s1 ! destQuant;
                   q' = (if val
                         then ucast (ucast q OR (push_bit destBitsMod 1 :: uint32))
                         else ucast (ucast q AND NOT (push_bit destBitsMod 1 :: uint32)));
                   cursor' = mCursor s1 + 1
               in Inr (s1\<lparr>mData := (mData s1)[destQuant := q'], mCursor := cursor',
                          mNumBits := max (mNumBits s1) cursor'\<rparr>))"

subsection \<open>Reading\<close>

text \<open>
  The loop of \<open>readBits\<close>; \<open>dest\<close> and \<open>di\<close> are the destination pointer \<open>data\<close>.
\<close>

function readLoop ::
  "nat \<Rightarrow> QuantType list \<Rightarrow> nat \<Rightarrow> QuantType list \<Rightarrow> nat \<Rightarrow> nat \<Rightarrow> error + QuantType list" where
  "readLoop srcBitsMod buf srcQuant dest di count =
     (if count = 0 then Inr dest
      else if \<not> di < length dest then Inl OutOfBounds
      else if \<not> srcQuant < length buf then Inl OutOfBounds
      else
        let quant0 = (0 :: QuantType);
            quant1 = (ucast (ucast quant0 OR drop_bit srcBitsMod (ucast (buf ! srcQuant) :: uint32))
                        :: QuantType);
            readBits = unat BITS_PER_QUANT - srcBitsMod
        in if count > readBits then
             if \<not> srcQuant + 1 < length buf then Inl OutOfBounds
             else
               let quant2 = (ucast (ucast quant1
                                OR push_bit readBits (ucast (buf ! (srcQuant + 1)) :: uint32))
                              :: QuantType)
               in readLoop srcBitsMod buf (srcQuant + 1) (dest[di := quant2]) (di + 1)
                    (count - min (unat BITS_PER_QUANT) count)
           else readLoop srcBitsMod buf (srcQuant + 1) (dest[di := quant1]) (di + 1)
                  (count - min (unat BITS_PER_QUANT) count))"
  by pat_completeness auto

termination
  by (relation "measure (\<lambda>(srcBitsMod, buf, srcQuant, dest, di, count). count)")
     (auto simp: BITS_PER_QUANT_def BYTES_PER_QUANT_def)

declare readLoop.simps [simp del]

text \<open>\<open>readBits\<close> returns the stream and the destination buffer it filled.\<close>

definition readBits ::
  "Bitstream \<Rightarrow> QuantType list \<Rightarrow> uint32 \<Rightarrow> error + Bitstream \<times> QuantType list" where
  "readBits s dest count =
     (if count = 0 then Inr (s, dest)
      else if \<not> mCursor s + count \<le> mNumBits s then Inl AssertFailed
      else
        let newCursor = mCursor s + count;
            srcBitsMod = unat (mCursor s AND (BITS_PER_QUANT - 1));
            srcQuant = unat (drop_bit BITS_PER_QUANT_LOG2 (mCursor s));
            got =
              (if srcBitsMod = 0 then
                 let numQuants = unat (drop_bit BITS_PER_QUANT_LOG2 count) in
                 (case memcpy dest 0 (mData s) srcQuant (numQuants * unat BYTES_PER_QUANT) of
                    Inl e \<Rightarrow> Inl e
                  | Inr dest1 \<Rightarrow>
                      readLoop srcBitsMod (mData s) (srcQuant + numQuants) dest1 numQuants
                        (unat count - numQuants * unat BITS_PER_QUANT))
               else readLoop srcBitsMod (mData s) srcQuant dest 0 (unat count))
        in case got of
             Inl e \<Rightarrow> Inl e
           | Inr dest' \<Rightarrow> Inr (s\<lparr>mCursor := newCursor\<rparr>, dest'))"

text \<open>\<open>read(T&)\<close>: \<open>val\<close> is the bytes of the object read into.\<close>

definition read_value :: "Bitstream \<Rightarrow> QuantType list \<Rightarrow> error + Bitstream \<times> QuantType list" where
  "read_value s val = readBits s val (word_of_nat (length val) * 8)"

definition read_bool :: "Bitstream \<Rightarrow> error + Bitstream \<times> bool" where
  "read_bool s =
     (if \<not> mCursor s + 1 \<le> mNumBits s then Inl AssertFailed
      else
        let srcBitsMod = unat (mCursor s AND (BITS_PER_QUANT - 1));
            srcQuant = unat (drop_bit BITS_PER_QUANT_LOG2 (mCursor s))
        in if \<not> srcQuant < length (mData s) then Inl OutOfBounds
           else
             let val = (drop_bit srcBitsMod (ucast (mData s ! srcQuant) :: uint32) AND 1 \<noteq> 0)
             in Inr (s\<lparr>mCursor := mCursor s + 1\<rparr>, val))"

subsection \<open>Moving the cursor\<close>

text \<open>
  \<open>skip(int32_t count)\<close>: the casts reinterpret the same 32 bits, and the sum
  \<open>(int32_t)mCursor + count\<close> is taken as the 32-bit two's complement addition that
  compilers produce (it wraps; C++ leaves signed overflow undefined).
\<close>

definition skip :: "Bitstream \<Rightarrow> uint32 \<Rightarrow> Bitstream" where
  "skip s count =
     s\<lparr>mCursor := word_of_int (clamp (sint (mCursor s + count)) 0 (sint (mMaxBits s)))\<rparr>"

definition seek :: "Bitstream \<Rightarrow> uint32 \<Rightarrow> Bitstream" where
  "seek s pos = s\<lparr>mCursor := min pos (mMaxBits s)\<rparr>"

definition align :: "Bitstream \<Rightarrow> uint32 \<Rightarrow> Bitstream" where
  "align s count =
     (if count = 0 then s
      else
        let bits = count * 8
        in skip s (bits - (((mCursor s - 1) AND (bits - 1)) + 1)))"

subsection \<open>Observations and programs\<close>

text \<open>Bit \<open>i\<close> of a buffer, counted from the start: bit \<open>i mod 8\<close> of byte \<open>i div 8\<close>.\<close>

definition getBit :: "QuantType list \<Rightarrow> nat \<Rightarrow> bool" where
  "getBit buf i = (i div 8 < length buf \<and> bit (buf ! (i div 8)) (i mod 8))"

text \<open>
  The state invariant: the length and the cursor are within the capacity, and a
  self-owned buffer has exactly the bytes of its capacity.
\<close>

definition valid :: "Bitstream \<Rightarrow> bool" where
  "valid s =
     (mNumBits s \<le> mMaxBits s \<and> mCursor s \<le> mMaxBits s \<and>
      (mOwnsMemory s \<longrightarrow> 8 * length (mData s) = unat (mMaxBits s)))"

text \<open>
  The public interface as data, to speak about sequences of calls: the three
  constructors, and the operations with their arguments (for the operations that can
  allocate, the content of the block the allocator would hand out).
\<close>

datatype ctor =
    CtorDefault
  | CtorCapacity "nat \<Rightarrow> QuantType" uint32
  | CtorExternal "QuantType list" uint32

datatype op =
    OpWriteBits "nat \<Rightarrow> QuantType" "QuantType list" uint32
  | OpReadBits "QuantType list" uint32
  | OpWriteValue "nat \<Rightarrow> QuantType" "QuantType list"
  | OpReadValue "QuantType list"
  | OpWriteBool "nat \<Rightarrow> QuantType" bool
  | OpReadBool
  | OpSkip uint32
  | OpSeek uint32
  | OpAlign uint32

fun construct :: "ctor \<Rightarrow> error + Bitstream" where
  "construct CtorDefault = Inr Bitstream_default"
| "construct (CtorCapacity junk n) = Bitstream_capacity junk n"
| "construct (CtorExternal data count) = Inr (Bitstream_external data count)"

fun apply_op :: "Bitstream \<Rightarrow> op \<Rightarrow> error + Bitstream" where
  "apply_op s (OpWriteBits junk data count) = writeBits s junk data count"
| "apply_op s (OpReadBits dest count) = map_sum id fst (readBits s dest count)"
| "apply_op s (OpWriteValue junk val) = write_value s junk val"
| "apply_op s (OpReadValue val) = map_sum id fst (read_value s val)"
| "apply_op s (OpWriteBool junk val) = write_bool s junk val"
| "apply_op s OpReadBool = map_sum id fst (read_bool s)"
| "apply_op s (OpSkip count) = Inr (skip s count)"
| "apply_op s (OpSeek pos) = Inr (seek s pos)"
| "apply_op s (OpAlign count) = Inr (align s count)"

fun run :: "Bitstream \<Rightarrow> op list \<Rightarrow> error + Bitstream" where
  "run s [] = Inr s"
| "run s (x # xs) = (case apply_op s x of Inl e \<Rightarrow> Inl e | Inr s' \<Rightarrow> run s' xs)"

definition exec :: "ctor \<Rightarrow> op list \<Rightarrow> error + Bitstream" where
  "exec c xs = (case construct c of Inl e \<Rightarrow> Inl e | Inr s \<Rightarrow> run s xs)"

text \<open>
  A sequence of boolean writes at one position: before each \<open>write(bool)\<close> the cursor
  is put back with \<open>seek(pos)\<close>.
\<close>

definition bool_writes_at :: "uint32 \<Rightarrow> (nat \<Rightarrow> QuantType) \<Rightarrow> bool list \<Rightarrow> op list" where
  "bool_writes_at pos junk vs = concat (map (\<lambda>v. [OpSeek pos, OpWriteBool junk v]) vs)"

section \<open>Basic facts\<close>

lemma unat_divideAndRoundUp8: "unat (divideAndRoundUp n BITS_PER_QUANT) = (unat n + 7) div 8"
proof -
  have "unat n < 2 ^ 32" using unsigned_less [of n] by simp
  then have "(unat n + 7) div 8 < 2 ^ 32" by simp
  then show ?thesis
    by (simp add: divideAndRoundUp_def BITS_PER_QUANT_def BYTES_PER_QUANT_def unat_of_nat take_bit_nat_eq_self_iff)
qed

lemma unat_roundQuant: "unat (divideAndRoundUp n BITS_PER_QUANT * BITS_PER_QUANT) = ((unat n + 7) div 8 * 8) mod 2 ^ 32"
  by (simp add: unat_word_ariths unat_divideAndRoundUp8) (simp add: BITS_PER_QUANT_def BYTES_PER_QUANT_def)

lemma roundQuant_dvd: "8 dvd unat (divideAndRoundUp n BITS_PER_QUANT * BITS_PER_QUANT)"
proof -
  have "(8::nat) dvd 2 ^ 32" by simp
  moreover have "(8::nat) dvd (unat n + 7) div 8 * 8" by simp
  ultimately have "8 dvd ((unat n + 7) div 8 * 8) mod 2 ^ 32"
    using dvd_mod by blast
  then show ?thesis by (simp only: unat_roundQuant)
qed

lemma length_bs_allocN [simp]: "length (bs_allocN junk n) = n"
  by (simp add: bs_allocN_def)

lemma memcpy_Inr:
  assumes "memcpy dst doff src soff n = Inr r"
  shows "doff + n \<le> length dst" and "soff + n \<le> length src"
    and "r = take doff dst @ take n (drop soff src) @ drop (doff + n) dst"
    and "length r = length dst"
  using assms by (auto simp: memcpy_def split: if_splits)

lemma unat_numQuants:
  "unat (divideAndRoundUp (divideAndRoundUp n BITS_PER_QUANT * BITS_PER_QUANT) BITS_PER_QUANT)
   = unat (divideAndRoundUp n BITS_PER_QUANT * BITS_PER_QUANT) div 8"
  using roundQuant_dvd [of n] by (auto simp: unat_divideAndRoundUp8 elim!: dvdE)

lemma realloc_cases:
  assumes "realloc s junk n0 = Inr s1"
  shows "(divideAndRoundUp n0 BITS_PER_QUANT * BITS_PER_QUANT = mMaxBits s \<and> s1 = s) \<or>
         (mMaxBits s < divideAndRoundUp n0 BITS_PER_QUANT * BITS_PER_QUANT \<and>
          mMaxBits s1 = divideAndRoundUp n0 BITS_PER_QUANT * BITS_PER_QUANT \<and>
          mNumBits s1 = mNumBits s \<and> mCursor s1 = mCursor s \<and> mOwnsMemory s1 = mOwnsMemory s \<and>
          8 * length (mData s1) = unat (mMaxBits s1) \<and>
          (mData s = [] \<or>
           ((unat (mMaxBits s) + 7) div 8 \<le> length (mData s) \<and>
            take ((unat (mMaxBits s) + 7) div 8) (mData s1) = take ((unat (mMaxBits s) + 7) div 8) (mData s))))"
proof (cases "divideAndRoundUp n0 BITS_PER_QUANT * BITS_PER_QUANT = mMaxBits s")
  case True
  with assms show ?thesis by (simp add: realloc_def Let_def)
next
  case False
  define R where "R = divideAndRoundUp n0 BITS_PER_QUANT * BITS_PER_QUANT"
  have lt: "mMaxBits s < R"
    using assms False by (auto simp: realloc_def Let_def R_def split: if_splits)
  have len8: "8 * (unat R div 8) = unat R"
    using roundQuant_dvd [of n0] by (auto simp: R_def)
  have nq: "unat (divideAndRoundUp R BITS_PER_QUANT) = unat R div 8"
    unfolding R_def by (rule unat_numQuants)
  show ?thesis
  proof (cases "mData s = []")
    case True
    with assms False lt have "s1 = s\<lparr>mData := bs_allocN junk (unat R div 8), mMaxBits := R\<rparr>"
      by (auto simp: realloc_def Let_def R_def [symmetric] nq split: if_splits)
    with lt True len8 show ?thesis by (simp add: R_def)
  next
    case ne: False
    let ?nb = "(unat (mMaxBits s) + 7) div 8"
    have nb: "unat (divideAndRoundUp (mMaxBits s) BITS_PER_QUANT * BYTES_PER_QUANT) = ?nb"
      by (simp add: BYTES_PER_QUANT_def unat_divideAndRoundUp8)
    from assms False lt ne obtain b where
      m: "memcpy (bs_allocN junk (unat R div 8)) 0 (mData s) 0 ?nb = Inr b"
      and s1: "s1 = s\<lparr>mData := b, mMaxBits := R\<rparr>"
      by (auto simp: realloc_def Let_def R_def [symmetric] nq nb split: if_splits sum.splits)
    from memcpy_Inr [OF m] have "?nb \<le> length (mData s)" "length b = unat R div 8"
      "take ?nb b = take ?nb (mData s)" by auto
    with lt s1 len8 show ?thesis by (simp add: R_def)
  qed
qed

lemma reallocIfNeeded_cases:
  assumes "reallocIfNeeded s junk n = Inr s1"
  shows "(n \<le> mMaxBits s \<and> s1 = s) \<or>
         (mMaxBits s < n \<and> mOwnsMemory s \<and>
          realloc s junk (n + 4 * BITS_PER_QUANT + n div 2) = Inr s1)"
  using assms by (simp add: reallocIfNeeded_def Let_def split: if_splits)

lemma reallocIfNeeded_Inr:
  assumes "reallocIfNeeded s junk n = Inr s1"
  shows "mMaxBits s \<le> mMaxBits s1" and "mNumBits s1 = mNumBits s" and "mCursor s1 = mCursor s"
    and "mOwnsMemory s1 = mOwnsMemory s"
    and "\<not> mOwnsMemory s \<Longrightarrow> s1 = s \<and> n \<le> mMaxBits s"
    and "mMaxBits s1 = mMaxBits s \<Longrightarrow> s1 = s"
    and "mMaxBits s1 \<noteq> mMaxBits s \<Longrightarrow> mMaxBits s < n \<and> 8 * length (mData s1) = unat (mMaxBits s1)"
proof -
  from reallocIfNeeded_cases [OF assms]
  have all: "mMaxBits s \<le> mMaxBits s1 \<and> mNumBits s1 = mNumBits s \<and> mCursor s1 = mCursor s \<and>
    mOwnsMemory s1 = mOwnsMemory s \<and> (\<not> mOwnsMemory s \<longrightarrow> s1 = s \<and> n \<le> mMaxBits s) \<and>
    (mMaxBits s1 = mMaxBits s \<longrightarrow> s1 = s) \<and>
    (mMaxBits s1 \<noteq> mMaxBits s \<longrightarrow> mMaxBits s < n \<and> 8 * length (mData s1) = unat (mMaxBits s1))"
  proof (elim disjE conjE)
    assume "n \<le> mMaxBits s" "s1 = s"
    then show ?thesis by simp
  next
    assume a: "mMaxBits s < n" "mOwnsMemory s"
      and r: "realloc s junk (n + 4 * BITS_PER_QUANT + n div 2) = Inr s1"
    let ?R = "divideAndRoundUp (n + 4 * BITS_PER_QUANT + n div 2) BITS_PER_QUANT * BITS_PER_QUANT"
    from realloc_cases [OF r] consider "s1 = s"
      | "mMaxBits s < ?R" "mMaxBits s1 = ?R" "mNumBits s1 = mNumBits s" "mCursor s1 = mCursor s"
        "mOwnsMemory s1 = mOwnsMemory s" "8 * length (mData s1) = unat (mMaxBits s1)"
      by blast
    then show ?thesis
    proof cases
      case 1 with a show ?thesis by simp
    next
      case 2 with a show ?thesis by simp
    qed
  qed
  from all show "mMaxBits s \<le> mMaxBits s1" by simp
  from all show "mNumBits s1 = mNumBits s" by simp
  from all show "mCursor s1 = mCursor s" by simp
  from all show "mOwnsMemory s1 = mOwnsMemory s" by simp
  from all show "\<not> mOwnsMemory s \<Longrightarrow> s1 = s \<and> n \<le> mMaxBits s" by simp
  from all show "mMaxBits s1 = mMaxBits s \<Longrightarrow> s1 = s" by simp
  from all show "mMaxBits s1 \<noteq> mMaxBits s \<Longrightarrow> mMaxBits s < n \<and> 8 * length (mData s1) = unat (mMaxBits s1)" by simp
qed

lemma reallocIfNeeded_valid:
  assumes "reallocIfNeeded s junk n = Inr s1" and "valid s"
  shows "valid s1"
proof (cases "mMaxBits s1 = mMaxBits s")
  case True
  with reallocIfNeeded_Inr(6) [OF assms(1)] assms(2) show ?thesis by simp
next
  case False
  from reallocIfNeeded_Inr(1-4) [OF assms(1)] reallocIfNeeded_Inr(7) [OF assms(1) False] assms(2)
  show ?thesis
    by (simp add: valid_def) (meson order_trans)
qed

lemma reallocIfNeeded_prefix:
  assumes "reallocIfNeeded s junk n = Inr s1" and "valid s"
  shows "length (mData s) \<le> length (mData s1) \<and> take (length (mData s)) (mData s1) = mData s"
proof (cases "mOwnsMemory s \<and> mMaxBits s < n")
  case False
  with assms(1) have "s1 = s" by (auto simp: reallocIfNeeded_def split: if_splits)
  then show ?thesis by simp
next
  case True
  let ?R = "divideAndRoundUp (n + 4 * BITS_PER_QUANT + n div 2) BITS_PER_QUANT * BITS_PER_QUANT"
  from True assms(1) have r: "realloc s junk (n + 4 * BITS_PER_QUANT + n div 2) = Inr s1"
    by (simp add: reallocIfNeeded_def Let_def)
  from True assms(2) have len: "8 * length (mData s) = unat (mMaxBits s)" by (simp add: valid_def)
  then have nb: "(unat (mMaxBits s) + 7) div 8 = length (mData s)" by presburger
  from realloc_cases [OF r] consider "s1 = s"
    | "mMaxBits s < ?R" "mMaxBits s1 = ?R" "8 * length (mData s1) = unat (mMaxBits s1)"
      "mData s = [] \<or> (unat (mMaxBits s) + 7) div 8 \<le> length (mData s) \<and>
           take ((unat (mMaxBits s) + 7) div 8) (mData s1) = take ((unat (mMaxBits s) + 7) div 8) (mData s)"
    by blast
  then show ?thesis
  proof cases
    case 1 then show ?thesis by simp
  next
    case 2
    from 2(1,2) have "unat (mMaxBits s) < unat (mMaxBits s1)" by (simp add: word_less_nat_alt)
    with len 2(3) have "length (mData s) \<le> length (mData s1)" by linarith
    moreover from 2(4) nb have "take (length (mData s)) (mData s1) = mData s" by auto
    ultimately show ?thesis by simp
  qed
qed

lemma unat_bitsMod: "unat ((c::uint32) AND (BITS_PER_QUANT - 1)) = unat c mod 8"
proof -
  have "(BITS_PER_QUANT - 1 :: uint32) = mask 3"
    by (simp add: BITS_PER_QUANT_def BYTES_PER_QUANT_def mask_eq_exp_minus_1)
  then show ?thesis
    by (simp add: take_bit_eq_mask [symmetric] unsigned_take_bit_eq take_bit_eq_mod unat_mod)
qed

lemma unat_quantIndex: "unat (drop_bit BITS_PER_QUANT_LOG2 (c::uint32)) = unat c div 8"
  by (simp add: BITS_PER_QUANT_LOG2_def unsigned_drop_bit_eq drop_bit_eq_div unat_div)

lemma set_one: "(ucast (ucast (q::QuantType) OR (push_bit m 1 :: uint32)) :: QuantType) = q OR push_bit m 1"
  by (rule bit_word_eqI) (auto simp: bit_simps)

lemma clear_one: "(ucast (ucast (q::QuantType) AND NOT (push_bit m 1 :: uint32)) :: QuantType) = q AND NOT (push_bit m 1)"
  by (rule bit_word_eqI) (auto simp: bit_simps)

lemma write_bool_Inr:
  assumes "write_bool s junk v = Inr s'"
  obtains s1 where "reallocIfNeeded s junk (mCursor s + 1) = Inr s1"
    and "unat (mCursor s) div 8 < length (mData s1)"
    and "s' = s1\<lparr>mData := (mData s1)[unat (mCursor s) div 8 :=
                 (if v then (mData s1 ! (unat (mCursor s) div 8)) OR push_bit (unat (mCursor s) mod 8) 1
                  else (mData s1 ! (unat (mCursor s) div 8)) AND NOT (push_bit (unat (mCursor s) mod 8) 1))],
               mCursor := mCursor s + 1, mNumBits := max (mNumBits s) (mCursor s + 1)\<rparr>"
proof -
  from assms obtain s1 where r: "reallocIfNeeded s junk (mCursor s + 1) = Inr s1"
    by (auto simp: write_bool_def split: sum.splits)
  note c = reallocIfNeeded_Inr(2,3) [OF r]
  from assms r c have "unat (mCursor s) div 8 < length (mData s1)"
    by (simp add: write_bool_def Let_def unat_bitsMod unat_quantIndex split: if_splits)
  moreover from assms r c this have "s' = s1\<lparr>mData := (mData s1)[unat (mCursor s) div 8 :=
                 (if v then (mData s1 ! (unat (mCursor s) div 8)) OR push_bit (unat (mCursor s) mod 8) 1
                  else (mData s1 ! (unat (mCursor s) div 8)) AND NOT (push_bit (unat (mCursor s) mod 8) 1))],
               mCursor := mCursor s + 1, mNumBits := max (mNumBits s) (mCursor s + 1)\<rparr>"
    by (simp add: write_bool_def Let_def unat_bitsMod unat_quantIndex set_one clear_one del: push_bit_of_1 split: if_splits)
  ultimately show ?thesis using r that by blast
qed

lemma getBit_update:
  assumes "k < length buf"
  shows "getBit (buf[k := (if v then buf ! k OR push_bit m 1 else buf ! k AND NOT (push_bit m 1))]) i
         = (if i div 8 = k \<and> i mod 8 = m then v else getBit buf i)"
  using assms by (auto simp: getBit_def bit_simps nth_list_update)

lemma unat_BITS_PER_QUANT [simp]: "unat BITS_PER_QUANT = 8"
  by (simp add: BITS_PER_QUANT_def BYTES_PER_QUANT_def)

lemma writeLoop_0: "writeLoop m dm src si buf dq 0 = Inr buf"
  by (subst writeLoop.simps) simp

lemma writeLoop_Inr_first:
  assumes "writeLoop m dm src si buf dq count = Inr r" and "0 < count"
  shows "si < length src \<and> dq < length buf"
proof (rule ccontr)
  assume "\<not> (si < length src \<and> dq < length buf)"
  with assms(2) have "writeLoop m dm src si buf dq count = Inl OutOfBounds"
    by (subst writeLoop.simps) (auto simp: Let_def)
  with assms(1) show False by simp
qed

lemma writeLoop_step:
  assumes "0 < count" and "si < length src" and "dq < length buf"
  shows "writeLoop m dm src si buf dq count =
    (let b1 = buf[dq := ucast (push_bit m (ucast (src ! si) :: uint32) OR (ucast (buf ! dq) AND dm))]
     in if count > 8 - m then
          if dq + 1 < length buf then
            writeLoop m dm src (si + 1)
              (b1[dq + 1 := ucast (drop_bit (8 - m) (ucast (src ! si) :: uint32)
                              OR (ucast (b1 ! (dq + 1)) AND NOT dm))])
              (dq + 1) (count - min 8 count)
          else Inl OutOfBounds
        else writeLoop m dm src (si + 1) b1 (dq + 1) (count - min 8 count))"
  using assms by (subst writeLoop.simps) (simp add: Let_def)

lemma writeLoop_length:
  "writeLoop m dm src si buf dq count = Inr r \<Longrightarrow> length r = length buf"
proof (induction count arbitrary: si buf dq r rule: less_induct)
  case (less count)
  show ?case
  proof (cases "count = 0")
    case True
    with less.prems show ?thesis by (simp add: writeLoop_0)
  next
    case False
    then have pos: "0 < count" by simp
    from writeLoop_Inr_first [OF less.prems pos] have b: "si < length src" "dq < length buf" by simp_all
    from pos have dec: "count - min 8 count < count" by simp
    from less.prems show ?thesis
      unfolding writeLoop_step [OF pos b] Let_def
      by (auto simp: writeLoop_0 dest!: less.IH [OF dec] split: if_splits)
  qed
qed

lemma writeLoop_bound:
  "writeLoop m dm src si buf dq count = Inr r \<Longrightarrow> m < 8 \<Longrightarrow> 0 < count \<Longrightarrow>
   dq + (m + count - 1) div 8 < length buf"
proof (induction count arbitrary: si buf dq r rule: less_induct)
  case (less count)
  note pos = \<open>0 < count\<close>
  from writeLoop_Inr_first [OF less.prems(1) pos] have b: "si < length src" "dq < length buf" by simp_all
  from pos have dec: "count - min 8 count < count" by simp
  show ?case
  proof (cases "count > 8 - m")
    case False
    with \<open>m < 8\<close> pos have "(m + count - 1) div 8 = 0" by simp
    with b show ?thesis by simp
  next
    case True
    with less.prems(1) have dq1: "dq + 1 < length buf"
      unfolding writeLoop_step [OF pos b] Let_def by (simp split: if_splits)
    show ?thesis
    proof (cases "count > 8")
      case False
      with True \<open>m < 8\<close> have "(m + count - 1) div 8 = 1" by simp
      with dq1 show ?thesis by simp
    next
      case c8: True
      from less.prems(1) True dq1 obtain b2 where
        rec: "writeLoop m dm src (si + 1) b2 (dq + 1) (count - min 8 count) = Inr r"
        and l2: "length b2 = length buf"
        unfolding writeLoop_step [OF pos b] Let_def by simp
      from c8 have "0 < count - min 8 count" by simp
      from less.IH [OF dec rec \<open>m < 8\<close> this] l2
      have "dq + 1 + (m + (count - min 8 count) - 1) div 8 < length buf" by simp
      moreover from c8 have "(m + (count - min 8 count) - 1) div 8 + 1 = (m + count - 1) div 8"
        by (simp add: min_def)
      ultimately show ?thesis by simp
    qed
  qed
qed

lemma unat_BYTES_PER_QUANT [simp]: "unat BYTES_PER_QUANT = 1"
  by (simp add: BYTES_PER_QUANT_def)

lemma writeBits_realloc_Inl:
  "reallocIfNeeded s junk (mCursor s + count) = Inl e \<Longrightarrow> count \<noteq> 0 \<Longrightarrow>
   writeBits s junk data count = Inl e"
  by (simp add: writeBits_def)

lemma writeBits_unfold:
  assumes "count \<noteq> 0" and r: "reallocIfNeeded s junk (mCursor s + count) = Inr s1"
  shows "writeBits s junk data count =
    (case (if unat (mCursor s) mod 8 = 0
           then (case memcpy (mData s1) (unat (mCursor s) div 8) data 0 (unat count div 8) of
                   Inl e \<Rightarrow> Inl e
                 | Inr b \<Rightarrow> writeLoop (unat (mCursor s) mod 8) 255 data (unat count div 8) b
                     (unat (mCursor s) div 8 + unat count div 8) (unat count - unat count div 8 * 8))
           else writeLoop (unat (mCursor s) mod 8) 255 data 0 (mData s1)
                  (unat (mCursor s) div 8) (unat count)) of
       Inl e \<Rightarrow> Inl e
     | Inr buf \<Rightarrow> Inr (s1\<lparr>mData := buf, mCursor := mCursor s + count,
                   mNumBits := max (mNumBits s) (mCursor s + count)\<rparr>))"
proof -
  note c = reallocIfNeeded_Inr(2,3) [OF r]
  have dm: "(push_bit 8 1 - 1 :: uint32) = 255" by simp
  show ?thesis
    unfolding writeBits_def Let_def r sum.case unat_bitsMod unat_quantIndex c
      unat_BITS_PER_QUANT unat_BYTES_PER_QUANT dm
    using assms(1) by simp
qed

lemma writeBits_Inr:
  assumes "writeBits s junk data count = Inr s'" and "count \<noteq> 0"
  obtains s1 buf where "reallocIfNeeded s junk (mCursor s + count) = Inr s1"
    and "s' = s1\<lparr>mData := buf, mCursor := mCursor s + count,
                   mNumBits := max (mNumBits s) (mCursor s + count)\<rparr>"
    and "length buf = length (mData s1)"
    and "unat (mCursor s) + unat count \<le> 8 * length (mData s1)"
proof -
  obtain s1 where r: "reallocIfNeeded s junk (mCursor s + count) = Inr s1"
  proof (cases "reallocIfNeeded s junk (mCursor s + count)")
    case (Inl e)
    from writeBits_realloc_Inl [OF Inl assms(2)] assms(1) show ?thesis by simp
  next
    case (Inr s1) then show ?thesis using that by blast
  qed
  let ?m = "unat (mCursor s) mod 8"
  let ?dq = "unat (mCursor s) div 8"
  let ?nq = "unat count div 8"
  note u = writeBits_unfold [OF assms(2) r, of data]
  from assms(2) have cpos: "0 < unat count" by (simp add: unat_gt_0)
  show ?thesis
  proof (cases "?m = 0")
    case True
    from assms(1) True obtain b where m: "memcpy (mData s1) ?dq data 0 ?nq = Inr b"
      unfolding u by (cases "memcpy (mData s1) ?dq data 0 ?nq") simp_all
    from assms(1) True m obtain buf where
      w: "writeLoop ?m 255 data ?nq b (?dq + ?nq) (unat count - ?nq * 8) = Inr buf"
      unfolding u
      by (cases "writeLoop ?m 255 data ?nq b (?dq + ?nq) (unat count - ?nq * 8)") simp_all
    from assms(1) True m w have s': "s' = s1\<lparr>mData := buf, mCursor := mCursor s + count,
                   mNumBits := max (mNumBits s) (mCursor s + count)\<rparr>"
      unfolding u by simp
    from memcpy_Inr [OF m] have mb: "?dq + ?nq \<le> length (mData s1)" "length b = length (mData s1)"
      by simp_all
    from writeLoop_length [OF w] mb have len: "length buf = length (mData s1)" by simp
    have cur: "unat (mCursor s) = 8 * ?dq" using True by (simp add: mod_eq_0_iff_dvd)
    have cnt: "unat count = 8 * ?nq + unat count mod 8" by simp
    have rem: "unat count - ?nq * 8 = unat count mod 8" by (simp add: minus_div_mult_eq_mod)
    have r8: "unat count mod 8 < 8" by simp
    have "unat (mCursor s) + unat count \<le> 8 * length (mData s1)"
    proof (cases "unat count mod 8 = 0")
      case z: True
      with cur cnt mb(1) show ?thesis by linarith
    next
      case False
      then have "0 < unat count - ?nq * 8" unfolding rem by simp
      from writeLoop_bound [OF w _ this] mb(2) True have "?dq + ?nq < length (mData s1)" by simp
      with cur cnt r8 show ?thesis by linarith
    qed
    with r s' len show ?thesis using that by blast
  next
    case False
    then have m8: "?m < 8" by simp
    from assms(1) False obtain buf where
      w: "writeLoop ?m 255 data 0 (mData s1) ?dq (unat count) = Inr buf"
      unfolding u by (cases "writeLoop ?m 255 data 0 (mData s1) ?dq (unat count)") simp_all
    from assms(1) False w have s': "s' = s1\<lparr>mData := buf, mCursor := mCursor s + count,
                   mNumBits := max (mNumBits s) (mCursor s + count)\<rparr>"
      unfolding u by simp
    from writeLoop_length [OF w] have len: "length buf = length (mData s1)" .
    from writeLoop_bound [OF w m8 cpos]
    have "?dq + (?m + unat count - 1) div 8 < length (mData s1)" .
    moreover have "?m + unat count - 1 < 8 * ((?m + unat count - 1) div 8) + 8"
      using mod_less_divisor [of 8 "?m + unat count - 1"] mult_div_mod_eq [of 8 "?m + unat count - 1"]
      by linarith
    moreover have "unat (mCursor s) = 8 * ?dq + ?m" by simp
    ultimately have "unat (mCursor s) + unat count \<le> 8 * length (mData s1)"
      using cpos by linarith
    with r s' len show ?thesis using that by blast
  qed
qed

lemma writeBits_0: "writeBits s junk data 0 = Inr s"
  by (simp add: writeBits_def)

lemma writeBits_valid:
  assumes "writeBits s junk data count = Inr s'" and "valid s"
  shows "valid s'"
proof (cases "count = 0")
  case True
  with assms show ?thesis by (simp add: writeBits_0)
next
  case False
  from writeBits_Inr [OF assms(1) False] obtain s1 buf where
    r: "reallocIfNeeded s junk (mCursor s + count) = Inr s1"
    and s': "s' = s1\<lparr>mData := buf, mCursor := mCursor s + count,
                   mNumBits := max (mNumBits s) (mCursor s + count)\<rparr>"
    and len: "length buf = length (mData s1)"
    and bnd: "unat (mCursor s) + unat count \<le> 8 * length (mData s1)"
    by blast
  from reallocIfNeeded_valid [OF r assms(2)] have v1: "valid s1" .
  note c = reallocIfNeeded_Inr(2-5) [OF r]
  have le: "mCursor s + count \<le> mMaxBits s1"
  proof (cases "mOwnsMemory s")
    case True
    with v1 c have "8 * length (mData s1) = unat (mMaxBits s1)" by (simp add: valid_def)
    with bnd have b: "unat (mCursor s) + unat count \<le> unat (mMaxBits s1)" by simp
    moreover have "unat (mMaxBits s1) < 2 ^ 32" using unsigned_less [of "mMaxBits s1"] by simp
    ultimately have "unat (mCursor s + count) = unat (mCursor s) + unat count"
      by (simp add: unat_add_lem [THEN iffD1])
    with b show ?thesis by (simp add: word_le_nat_alt)
  next
    case False
    with c(4) show ?thesis by simp
  qed
  with v1 c s' len show ?thesis by (simp add: valid_def)
qed

lemma write_bool_valid:
  assumes "write_bool s junk v = Inr s'" and "valid s"
  shows "valid s'"
proof -
  from write_bool_Inr [OF assms(1)] obtain s1 q' where
    r: "reallocIfNeeded s junk (mCursor s + 1) = Inr s1"
    and k: "unat (mCursor s) div 8 < length (mData s1)"
    and s': "s' = s1\<lparr>mData := (mData s1)[unat (mCursor s) div 8 := q'],
               mCursor := mCursor s + 1, mNumBits := max (mNumBits s) (mCursor s + 1)\<rparr>"
    by blast
  from reallocIfNeeded_valid [OF r assms(2)] have v1: "valid s1" .
  note c = reallocIfNeeded_Inr(2-5) [OF r]
  have le: "mCursor s + 1 \<le> mMaxBits s1"
  proof (cases "mOwnsMemory s")
    case True
    with v1 c have "8 * length (mData s1) = unat (mMaxBits s1)" by (simp add: valid_def)
    with k have "unat (mCursor s) < unat (mMaxBits s1)" by linarith
    then have "mCursor s < mMaxBits s1" by (simp add: word_less_nat_alt)
    then show ?thesis by (rule inc_le)
  next
    case False
    with c(4) show ?thesis by simp
  qed
  with v1 c s' show ?thesis by (simp add: valid_def)
qed

lemma readBits_Inr:
  assumes "readBits s dest count = Inr (s', dest')"
  shows "(count = 0 \<and> s' = s) \<or>
         (count \<noteq> 0 \<and> mCursor s + count \<le> mNumBits s \<and> s' = s\<lparr>mCursor := mCursor s + count\<rparr>)"
proof (cases "count = 0")
  case True
  with assms show ?thesis by (simp add: readBits_def)
next
  case False
  show ?thesis
  proof (cases "mCursor s + count \<le> mNumBits s")
    case le: False
    with assms False show ?thesis by (simp add: readBits_def)
  next
    case True
    with assms False show ?thesis
      unfolding readBits_def Let_def by (simp split: sum.splits)
  qed
qed

lemma readBits_valid:
  assumes "readBits s dest count = Inr (s', dest')" and "valid s"
  shows "valid s'"
  using readBits_Inr [OF assms(1)] assms(2) by (auto simp: valid_def)

lemma read_bool_valid:
  assumes "read_bool s = Inr (s', v)" and "valid s"
  shows "valid s'"
  using assms by (auto simp: read_bool_def valid_def Let_def split: if_splits)

lemma seek_valid: "valid s \<Longrightarrow> valid (seek s pos)"
  by (simp add: valid_def seek_def)

lemma sint_eq_mod: "sint (w::uint32) = (uint w + 2 ^ 31) mod 2 ^ 32 - 2 ^ 31"
  by (simp add: sint_uint signed_take_bit_eq_take_bit_shift take_bit_eq_mod)

lemma sint_of_small: "uint (w::uint32) < 2 ^ 31 \<Longrightarrow> sint w = uint w"
  by (simp add: sint_eq_mod)

lemma sint_nonneg_uint:
  assumes "0 \<le> sint (w::uint32)"
  shows "sint w = uint w" and "uint w < 2 ^ 31"
proof -
  have lt: "uint w < 2 ^ 32" using uint_lt2p [of w] by simp
  show small: "uint w < 2 ^ 31"
  proof (rule ccontr)
    assume "\<not> uint w < 2 ^ 31"
    then have ge: "2 ^ 31 \<le> uint w" by simp
    with lt have "(uint w + 2 ^ 31) mod 2 ^ 32 = uint w + 2 ^ 31 - 2 ^ 32"
      by (simp add: mod_pos_geq)
    with lt have "sint w < 0" by (simp add: sint_eq_mod)
    with assms show False by simp
  qed
  then show "sint w = uint w" by (rule sint_of_small)
qed

lemma word_of_int_le:
  assumes "0 \<le> v" and "v \<le> uint (c::uint32)"
  shows "(word_of_int v :: uint32) \<le> c"
proof -
  have "uint c < 2 ^ 32" using uint_lt2p [of c] by simp
  with assms have "v mod 2 ^ 32 = v" by simp
  with assms show ?thesis by (simp add: word_le_def uint_word_of_int)
qed

lemma skip_valid:
  assumes "valid s"
  shows "valid (skip s count)"
proof -
  let ?v = "clamp (sint (mCursor s + count)) 0 (sint (mMaxBits s))"
  have "(word_of_int ?v :: uint32) \<le> mMaxBits s"
  proof (cases "0 \<le> sint (mMaxBits s)")
    case True
    then have "0 \<le> ?v" "?v \<le> sint (mMaxBits s)" by (simp_all add: clamp_def)
    with sint_nonneg_uint(1) [OF True] show ?thesis by (simp add: word_of_int_le)
  next
    case False
    then have "?v = 0" by (simp add: clamp_def)
    then show ?thesis by simp
  qed
  with assms show ?thesis by (simp add: valid_def skip_def)
qed

lemma align_valid: "valid s \<Longrightarrow> valid (align s count)"
  by (simp add: align_def Let_def skip_valid)

lemma Bitstream_default_valid: "valid Bitstream_default"
  by (simp add: valid_def Bitstream_default_def)

lemma Bitstream_external_valid: "valid (Bitstream_external data count)"
  by (simp add: valid_def Bitstream_external_def)

lemma Bitstream_capacity_valid:
  assumes "Bitstream_capacity junk n = Inr s"
  shows "valid s"
proof -
  from assms have r: "realloc Bitstream_default junk (n * 8) = Inr s"
    by (simp add: Bitstream_capacity_def)
  from realloc_cases [OF r] consider "s = Bitstream_default"
    | "mNumBits s = mNumBits Bitstream_default" "mCursor s = mCursor Bitstream_default"
      "8 * length (mData s) = unat (mMaxBits s)"
    by blast
  then show ?thesis
  proof cases
    case 1 then show ?thesis by (simp add: Bitstream_default_valid)
  next
    case 2 then show ?thesis by (simp add: valid_def Bitstream_default_def)
  qed
qed

lemma construct_valid: "construct c = Inr s \<Longrightarrow> valid s"
  by (cases c)
    (auto simp: Bitstream_default_valid Bitstream_external_valid Bitstream_capacity_valid)

lemma apply_op_valid:
  assumes "apply_op s x = Inr s'" and "valid s"
  shows "valid s'"
proof (cases x)
  case (OpWriteBits junk data count)
  with assms show ?thesis by (simp add: writeBits_valid)
next
  case (OpReadBits dest count)
  with assms obtain d where "readBits s dest count = Inr (s', d)"
    by (cases "readBits s dest count") auto
  with assms(2) show ?thesis by (rule readBits_valid [rotated])
next
  case (OpWriteValue junk val)
  with assms show ?thesis by (simp add: write_value_def writeBits_valid)
next
  case (OpReadValue val)
  with assms obtain d where "readBits s val (word_of_nat (length val) * 8) = Inr (s', d)"
    by (cases "read_value s val") (auto simp: read_value_def)
  with assms(2) show ?thesis by (rule readBits_valid [rotated])
next
  case (OpWriteBool junk v)
  with assms show ?thesis by (simp add: write_bool_valid)
next
  case OpReadBool
  with assms obtain v where "read_bool s = Inr (s', v)"
    by (cases "read_bool s") auto
  with assms(2) show ?thesis by (rule read_bool_valid [rotated])
next
  case (OpSkip count)
  with assms show ?thesis by (auto simp: skip_valid)
next
  case (OpSeek pos)
  with assms show ?thesis by (auto simp: seek_valid)
next
  case (OpAlign count)
  with assms show ?thesis by (auto simp: align_valid)
qed

lemma run_valid: "run s xs = Inr s' \<Longrightarrow> valid s \<Longrightarrow> valid s'"
proof (induction xs arbitrary: s)
  case Nil
  then show ?case by simp
next
  case (Cons x xs)
  from Cons.prems(1) obtain s1 where a: "apply_op s x = Inr s1" and r: "run s1 xs = Inr s'"
    by (cases "apply_op s x") simp_all
  from Cons.IH [OF r apply_op_valid [OF a Cons.prems(2)]] show ?case .
qed

lemma writeBits_capacity:
  assumes "writeBits s junk data count = Inr s'"
  shows "mMaxBits s \<le> mMaxBits s' \<and> mOwnsMemory s' = mOwnsMemory s \<and>
         (\<not> mOwnsMemory s \<longrightarrow> mMaxBits s' = mMaxBits s \<and> length (mData s') = length (mData s))"
proof (cases "count = 0")
  case True
  with assms show ?thesis by (simp add: writeBits_0)
next
  case False
  from writeBits_Inr [OF assms False] obtain s1 buf where
    r: "reallocIfNeeded s junk (mCursor s + count) = Inr s1"
    and s': "s' = s1\<lparr>mData := buf, mCursor := mCursor s + count,
                   mNumBits := max (mNumBits s) (mCursor s + count)\<rparr>"
    and len: "length buf = length (mData s1)"
    by blast
  from reallocIfNeeded_Inr(1,4,5) [OF r] s' len show ?thesis by auto
qed

lemma write_bool_capacity:
  assumes "write_bool s junk v = Inr s'"
  shows "mMaxBits s \<le> mMaxBits s' \<and> mOwnsMemory s' = mOwnsMemory s \<and>
         (\<not> mOwnsMemory s \<longrightarrow> mMaxBits s' = mMaxBits s \<and> length (mData s') = length (mData s))"
proof -
  from write_bool_Inr [OF assms] obtain s1 q' where
    r: "reallocIfNeeded s junk (mCursor s + 1) = Inr s1"
    and s': "s' = s1\<lparr>mData := (mData s1)[unat (mCursor s) div 8 := q'],
               mCursor := mCursor s + 1, mNumBits := max (mNumBits s) (mCursor s + 1)\<rparr>"
    by blast
  from reallocIfNeeded_Inr(1,4,5) [OF r] s' show ?thesis by auto
qed

lemma apply_op_capacity:
  assumes "apply_op s x = Inr s'"
  shows "mMaxBits s \<le> mMaxBits s' \<and> mOwnsMemory s' = mOwnsMemory s \<and>
         (\<not> mOwnsMemory s \<longrightarrow> mMaxBits s' = mMaxBits s \<and> length (mData s') = length (mData s))"
proof (cases x)
  case (OpWriteBits junk data count)
  with assms show ?thesis by (simp add: writeBits_capacity)
next
  case (OpReadBits dest count)
  with assms obtain d where "readBits s dest count = Inr (s', d)"
    by (cases "readBits s dest count") auto
  from readBits_Inr [OF this] show ?thesis by auto
next
  case (OpWriteValue junk val)
  with assms show ?thesis by (simp add: write_value_def writeBits_capacity)
next
  case (OpReadValue val)
  with assms obtain d where "readBits s val (word_of_nat (length val) * 8) = Inr (s', d)"
    by (cases "read_value s val") (auto simp: read_value_def)
  from readBits_Inr [OF this] show ?thesis by auto
next
  case (OpWriteBool junk v)
  with assms show ?thesis by (simp add: write_bool_capacity)
next
  case OpReadBool
  with assms show ?thesis
    by (cases "read_bool s") (auto simp: read_bool_def Let_def split: if_splits)
next
  case (OpSkip count)
  with assms show ?thesis by (auto simp: skip_def)
next
  case (OpSeek pos)
  with assms show ?thesis by (auto simp: seek_def)
next
  case (OpAlign count)
  with assms show ?thesis by (cases "count = 0") (auto simp: align_def skip_def Let_def)
qed

lemma run_capacity:
  "run s xs = Inr s' \<Longrightarrow>
   mMaxBits s \<le> mMaxBits s' \<and> mOwnsMemory s' = mOwnsMemory s \<and>
   (\<not> mOwnsMemory s \<longrightarrow> mMaxBits s' = mMaxBits s \<and> length (mData s') = length (mData s))"
proof (induction xs arbitrary: s)
  case Nil
  then show ?case by simp
next
  case (Cons x xs)
  from Cons.prems(1) obtain s1 where a: "apply_op s x = Inr s1" and r: "run s1 xs = Inr s'"
    by (cases "apply_op s x") simp_all
  from Cons.IH [OF r] apply_op_capacity [OF a] show ?case by auto
qed

lemma realloc_total:
  assumes "valid s" and "mOwnsMemory s"
    and lt: "mMaxBits s < divideAndRoundUp n0 BITS_PER_QUANT * BITS_PER_QUANT"
  shows "\<exists>s1. realloc s junk n0 = Inr s1"
proof -
  define R where "R = divideAndRoundUp n0 BITS_PER_QUANT * BITS_PER_QUANT"
  have nq: "unat (divideAndRoundUp R BITS_PER_QUANT) = unat R div 8"
    unfolding R_def by (rule unat_numQuants)
  have nb: "unat (divideAndRoundUp (mMaxBits s) BITS_PER_QUANT * BYTES_PER_QUANT)
            = (unat (mMaxBits s) + 7) div 8"
    by (simp add: BYTES_PER_QUANT_def unat_divideAndRoundUp8)
  from assms(1,2) have len: "8 * length (mData s) = unat (mMaxBits s)" by (simp add: valid_def)
  then have nb': "(unat (mMaxBits s) + 7) div 8 = length (mData s)" by linarith
  from lt have "unat (mMaxBits s) < unat R" by (simp add: R_def word_less_nat_alt)
  with len have le: "length (mData s) \<le> unat R div 8" by linarith
  from lt have ne: "R \<noteq> mMaxBits s" by (auto simp: R_def)
  from le have "\<exists>b. memcpy (bs_allocN junk (unat R div 8)) 0 (mData s) 0 (length (mData s)) = Inr b"
    by (simp add: memcpy_def)
  then obtain b where m: "memcpy (bs_allocN junk (unat R div 8)) 0 (mData s) 0 (length (mData s)) = Inr b" ..
  show ?thesis
    unfolding realloc_def Let_def R_def [symmetric] nq nb nb'
    using ne lt [folded R_def] m by simp
qed

lemma unat_newMaxBits:
  assumes "unat (n::uint32) + 32 + unat n div 2 < 2 ^ 32"
  shows "unat (n + 4 * BITS_PER_QUANT + n div 2) = unat n + 32 + unat n div 2"
proof -
  have a: "unat (4 * BITS_PER_QUANT) = 32" by (simp add: BITS_PER_QUANT_def BYTES_PER_QUANT_def)
  have b: "unat (n div 2) = unat n div 2" by (simp add: unat_div)
  from assms a have c: "unat (n + 4 * BITS_PER_QUANT) = unat n + 32"
    by (simp add: unat_add_lem [THEN iffD1])
  from assms b c show ?thesis by (simp add: unat_add_lem [THEN iffD1])
qed

lemma reallocIfNeeded_grows:
  assumes "valid s" and "mOwnsMemory s" and "mMaxBits s < n"
    and "(unat n + 32 + unat n div 2 + 7) div 8 * 8 < 2 ^ 32"
  shows "\<exists>s1. reallocIfNeeded s junk n = Inr s1 \<and>
           unat (mMaxBits s1) = (unat n + 32 + unat n div 2 + 7) div 8 * 8"
proof -
  let ?N = "unat n + 32 + unat n div 2"
  let ?R = "divideAndRoundUp (n + 4 * BITS_PER_QUANT + n div 2) BITS_PER_QUANT * BITS_PER_QUANT"
  have "?N \<le> (?N + 7) div 8 * 8" by linarith
  with assms(4) have N: "?N < 2 ^ 32" by linarith
  have uR: "unat ?R = (?N + 7) div 8 * 8"
    using assms(4) by (simp add: unat_roundQuant unat_newMaxBits [OF N])
  from assms(3) have "unat (mMaxBits s) < unat n" by (simp add: word_less_nat_alt)
  also have "unat n \<le> unat ?R" unfolding uR by linarith
  finally have lt: "mMaxBits s < ?R" by (simp add: word_less_nat_alt)
  from realloc_total [OF assms(1,2) lt] obtain s1 where
    r: "realloc s junk (n + 4 * BITS_PER_QUANT + n div 2) = Inr s1" ..
  from realloc_cases [OF r] lt have "mMaxBits s1 = ?R" by auto
  with r assms(2,3) uR show ?thesis by (simp add: reallocIfNeeded_def Let_def)
qed

lemma getBit_prefix:
  assumes "take (length xs) ys = xs" and "i < 8 * length xs"
  shows "getBit ys i = getBit xs i"
proof -
  from assms(2) have k: "i div 8 < length xs" by simp
  have "length (take (length xs) ys) = min (length ys) (length xs)" by simp
  with assms(1) have "length xs \<le> length ys" by simp
  moreover from k have "take (length xs) ys ! (i div 8) = ys ! (i div 8)" by simp
  ultimately show ?thesis using k assms(1) by (simp add: getBit_def)
qed

lemma write_bool_frame:
  assumes "valid s" and "write_bool s junk v = Inr s'"
  shows "getBit (mData s') (unat (mCursor s)) = v \<and> length (mData s) \<le> length (mData s') \<and>
         (\<forall>i. i < 8 * length (mData s) \<and> i \<noteq> unat (mCursor s) \<longrightarrow>
              getBit (mData s') i = getBit (mData s) i)"
proof -
  let ?k = "unat (mCursor s) div 8" and ?m = "unat (mCursor s) mod 8"
  from write_bool_Inr [OF assms(2)] obtain s1 where
    r: "reallocIfNeeded s junk (mCursor s + 1) = Inr s1"
    and k: "?k < length (mData s1)"
    and s': "s' = s1\<lparr>mData := (mData s1)[?k :=
                 (if v then (mData s1 ! ?k) OR push_bit ?m 1
                  else (mData s1 ! ?k) AND NOT (push_bit ?m 1))],
               mCursor := mCursor s + 1, mNumBits := max (mNumBits s) (mCursor s + 1)\<rparr>"
    by blast
  from reallocIfNeeded_prefix [OF r assms(1)]
  have len: "length (mData s) \<le> length (mData s1)"
    and pre: "take (length (mData s)) (mData s1) = mData s" by simp_all
  have g: "getBit (mData s') i = (if i div 8 = ?k \<and> i mod 8 = ?m then v else getBit (mData s1) i)" for i
    unfolding s' using getBit_update [OF k, of v ?m i] by simp
  have here: "getBit (mData s') (unat (mCursor s)) = v" by (simp add: g)
  have other: "getBit (mData s') i = getBit (mData s) i"
    if "i < 8 * length (mData s)" "i \<noteq> unat (mCursor s)" for i
  proof -
    have "\<not> (i div 8 = ?k \<and> i mod 8 = ?m)"
    proof
      assume "i div 8 = ?k \<and> i mod 8 = ?m"
      then have "i = unat (mCursor s)" by (metis div_mult_mod_eq)
      with that(2) show False by simp
    qed
    then have "getBit (mData s') i = getBit (mData s1) i" unfolding g by (rule if_not_P)
    with getBit_prefix [OF pre that(1)] show ?thesis by simp
  qed
  from len s' have "length (mData s) \<le> length (mData s')" by simp
  with here other show ?thesis by blast
qed

lemma run_bool_writes_at_Cons:
  assumes "run s (bool_writes_at pos junk (v # vs)) = Inr s'"
  obtains s1 where "write_bool (seek s pos) junk v = Inr s1"
    and "run s1 (bool_writes_at pos junk vs) = Inr s'"
  using assms
  by (cases "write_bool (seek s pos) junk v") (simp_all add: bool_writes_at_def)

lemma load_first: "(ucast (ucast (0::QuantType) OR drop_bit m (ucast (b::QuantType) :: uint32)) :: QuantType) = drop_bit m b"
  by (rule bit_word_eqI) (auto simp: bit_simps dest: bit_imp_le_length)

lemma load_first': "(ucast (drop_bit m (ucast (b::QuantType) :: uint32)) :: QuantType) = drop_bit m b"
  by (rule bit_word_eqI) (auto simp: bit_simps dest: bit_imp_le_length)

lemma load_second: "(ucast (ucast (q::QuantType) OR push_bit r (ucast (b::QuantType) :: uint32)) :: QuantType) = q OR push_bit r b"
  by (rule bit_word_eqI) (auto simp: bit_simps)

lemma readLoop_0: "readLoop m buf sq dest di 0 = Inr dest"
  by (subst readLoop.simps) simp

lemma readLoop_Inr_first:
  assumes "readLoop m buf sq dest di count = Inr r" and "0 < count"
  shows "di < length dest \<and> sq < length buf \<and> (8 - m < count \<longrightarrow> sq + 1 < length buf)"
proof (rule ccontr)
  assume "\<not> (di < length dest \<and> sq < length buf \<and> (8 - m < count \<longrightarrow> sq + 1 < length buf))"
  with assms(2) have "readLoop m buf sq dest di count = Inl OutOfBounds"
    by (subst readLoop.simps) (auto simp: Let_def)
  with assms(1) show False by simp
qed

lemma readLoop_step:
  assumes "0 < count" and "di < length dest" and "sq < length buf"
    and "8 - m < count \<longrightarrow> sq + 1 < length buf"
  shows "readLoop m buf sq dest di count =
     readLoop m buf (sq + 1)
       (dest[di := drop_bit m (buf ! sq) OR
                   (if 8 - m < count then push_bit (8 - m) (buf ! (sq + 1)) else 0)])
       (di + 1) (count - min 8 count)"
  using assms by (subst readLoop.simps) (simp add: Let_def load_first load_first' load_second)

lemma readLoop_length:
  "readLoop m buf sq dest di count = Inr r \<Longrightarrow> length r = length dest"
proof (induction count arbitrary: sq dest di r rule: less_induct)
  case (less count)
  show ?case
  proof (cases "count = 0")
    case True
    with less.prems show ?thesis by (simp add: readLoop_0)
  next
    case False
    then have pos: "0 < count" by simp
    from readLoop_Inr_first [OF less.prems pos]
    have b: "di < length dest" "sq < length buf" "8 - m < count \<longrightarrow> sq + 1 < length buf"
      by simp_all
    from pos have dec: "count - min 8 count < count" by simp
    from less.prems have "length r = length (dest[di := drop_bit m (buf ! sq) OR
                   (if 8 - m < count then push_bit (8 - m) (buf ! (sq + 1)) else 0)])"
      unfolding readLoop_step [OF pos b] by (rule less.IH [OF dec])
    then show ?thesis by simp
  qed
qed

lemma readLoop_low:
  "readLoop m buf sq dest di count = Inr r \<Longrightarrow> j < di \<Longrightarrow> r ! j = dest ! j"
proof (induction count arbitrary: sq dest di r rule: less_induct)
  case (less count)
  show ?case
  proof (cases "count = 0")
    case True
    with less.prems show ?thesis by (simp add: readLoop_0)
  next
    case False
    then have pos: "0 < count" by simp
    from readLoop_Inr_first [OF less.prems(1) pos]
    have b: "di < length dest" "sq < length buf" "8 - m < count \<longrightarrow> sq + 1 < length buf"
      by simp_all
    from pos have dec: "count - min 8 count < count" by simp
    from less.prems(2) have "j < di + 1" by simp
    from less.IH [OF dec less.prems(1) [unfolded readLoop_step [OF pos b]] this] less.prems(2)
    show ?thesis by simp
  qed
qed

lemma readLoop_last:
  "readLoop m buf sq dest di count = Inr r \<Longrightarrow> count mod 8 \<noteq> 0 \<Longrightarrow>
   di + count div 8 < length r \<and> sq + count div 8 < length buf \<and>
   (8 - m < count mod 8 \<longrightarrow> sq + count div 8 + 1 < length buf) \<and>
   r ! (di + count div 8) =
     drop_bit m (buf ! (sq + count div 8)) OR
     (if 8 - m < count mod 8 then push_bit (8 - m) (buf ! (sq + count div 8 + 1)) else 0)"
proof (induction count arbitrary: sq dest di r rule: less_induct)
  case (less count)
  from less.prems(2) have pos: "0 < count" by (cases "count = 0") simp_all
  from readLoop_Inr_first [OF less.prems(1) pos]
  have b: "di < length dest" "sq < length buf" "8 - m < count \<longrightarrow> sq + 1 < length buf"
    by simp_all
  from pos have dec: "count - min 8 count < count" by simp
  note step = less.prems(1) [unfolded readLoop_step [OF pos b]]
  show ?case
  proof (cases "count < 8")
    case True
    then have z: "count - min 8 count = 0" and d: "count div 8 = 0" and md: "count mod 8 = count"
      by simp_all
    from step have "r = dest[di := drop_bit m (buf ! sq) OR
                   (if 8 - m < count then push_bit (8 - m) (buf ! (sq + 1)) else 0)]"
      unfolding z readLoop_0 by simp
    with b show ?thesis unfolding d md by simp
  next
    case False
    with less.prems(2) have c8: "8 < count" by (cases "count = 8") simp_all
    then have mn: "count - min 8 count = count - 8" by simp
    from c8 have d: "count div 8 = (count - 8) div 8 + 1" and md: "(count - 8) mod 8 = count mod 8"
      by (simp_all add: le_div_geq le_mod_geq)
    from less.prems(2) md have nz: "(count - 8) mod 8 \<noteq> 0" by simp
    from c8 have dec8: "count - 8 < count" by simp
    have e1: "di + 1 + (count - 8) div 8 = di + count div 8"
      and e2: "sq + 1 + (count - 8) div 8 = sq + count div 8"
      unfolding d by simp_all
    from less.IH [OF dec8 step [unfolded mn] nz] show ?thesis
      unfolding e1 e2 md .
  qed
qed

lemma readBits_unfold:
  assumes "count \<noteq> 0" and "mCursor s + count \<le> mNumBits s"
  shows "readBits s dest count =
    (case (if unat (mCursor s) mod 8 = 0
           then (case memcpy dest 0 (mData s) (unat (mCursor s) div 8) (unat count div 8) of
                   Inl e \<Rightarrow> Inl e
                 | Inr d1 \<Rightarrow> readLoop (unat (mCursor s) mod 8) (mData s)
                     (unat (mCursor s) div 8 + unat count div 8) d1 (unat count div 8)
                     (unat count - unat count div 8 * 8))
           else readLoop (unat (mCursor s) mod 8) (mData s) (unat (mCursor s) div 8) dest 0
                  (unat count)) of
       Inl e \<Rightarrow> Inl e
     | Inr dest' \<Rightarrow> Inr (s\<lparr>mCursor := mCursor s + count\<rparr>, dest'))"
  unfolding readBits_def Let_def unat_bitsMod unat_quantIndex unat_BITS_PER_QUANT
    unat_BYTES_PER_QUANT
  using assms by simp

lemma readBits_last:
  assumes "readBits s dest count = Inr (s', dest')" and "unat count mod 8 \<noteq> 0"
  shows "unat count div 8 < length dest' \<and>
     unat (mCursor s) div 8 + unat count div 8 < length (mData s) \<and>
     (8 - unat (mCursor s) mod 8 < unat count mod 8 \<longrightarrow>
        unat (mCursor s) div 8 + unat count div 8 + 1 < length (mData s)) \<and>
     dest' ! (unat count div 8) =
       drop_bit (unat (mCursor s) mod 8) (mData s ! (unat (mCursor s) div 8 + unat count div 8)) OR
       (if 8 - unat (mCursor s) mod 8 < unat count mod 8
        then push_bit (8 - unat (mCursor s) mod 8)
               (mData s ! (unat (mCursor s) div 8 + unat count div 8 + 1))
        else 0)"
proof -
  let ?m = "unat (mCursor s) mod 8" and ?q = "unat (mCursor s) div 8"
  let ?nq = "unat count div 8"
  from assms(2) have nz: "count \<noteq> 0" by (cases "count = 0") simp_all
  from readBits_Inr [OF assms(1)] nz have le: "mCursor s + count \<le> mNumBits s" by simp
  note u = assms(1) [unfolded readBits_unfold [OF nz le]]
  show ?thesis
  proof (cases "?m = 0")
    case True
    from u True obtain d1 where m: "memcpy dest 0 (mData s) ?q ?nq = Inr d1"
      by (cases "memcpy dest 0 (mData s) ?q ?nq") simp_all
    have rem: "unat count - ?nq * 8 = unat count mod 8" by (simp add: minus_div_mult_eq_mod)
    from u True m have w: "readLoop ?m (mData s) (?q + ?nq) d1 ?nq (unat count mod 8) = Inr dest'"
      unfolding rem
      by (cases "readLoop ?m (mData s) (?q + ?nq) d1 ?nq (unat count mod 8)") simp_all
    have "unat count mod 8 mod 8 \<noteq> 0" using assms(2) by simp
    from readLoop_last [OF w this] show ?thesis by simp
  next
    case False
    from u False have w: "readLoop ?m (mData s) ?q dest 0 (unat count) = Inr dest'"
      by (cases "readLoop ?m (mData s) ?q dest 0 (unat count)") simp_all
    from readLoop_last [OF w assms(2)] show ?thesis by simp
  qed
qed

lemma divmod8: "r < 8 \<Longrightarrow> (8 * a + r) div 8 = a \<and> (8 * a + r) mod 8 = (r::nat)"
  by simp

lemma skip_cursor:
  assumes "mCursor s \<le> mMaxBits s" and "unat (mMaxBits s) < 2 ^ 31"
    and "uint (mCursor s) + sint delta < 2 ^ 31"
  shows "skip s delta =
         s\<lparr>mCursor := word_of_int (max 0 (min (uint (mCursor s) + sint delta) (uint (mMaxBits s))))\<rparr>"
    and "uint (mCursor (skip s delta)) = max 0 (min (uint (mCursor s) + sint delta) (uint (mMaxBits s)))"
proof -
  from assms(2) have "int (unat (mMaxBits s)) < int (2 ^ 31)" by (simp only: of_nat_less_iff)
  then have capi: "uint (mMaxBits s) < 2 ^ 31" by simp
  with assms(1) have curi: "uint (mCursor s) < 2 ^ 31" by (simp add: word_le_def)
  have scap: "sint (mMaxBits s) = uint (mMaxBits s)" using capi by (rule sint_of_small)
  have scur: "sint (mCursor s) = uint (mCursor s)" using curi by (rule sint_of_small)
  have "- (2 ^ 31) \<le> sint delta" using sint_ge [of delta] by simp
  moreover have "0 \<le> uint (mCursor s)" by simp
  ultimately have lo: "- (2 ^ 31) \<le> uint (mCursor s) + sint delta" by linarith
  have ssum: "sint (mCursor s + delta) = uint (mCursor s) + sint delta"
    using lo assms(3) by (simp add: sint_word_add scur signed_take_bit_int_eq_self)
  show eq: "skip s delta =
         s\<lparr>mCursor := word_of_int (max 0 (min (uint (mCursor s) + sint delta) (uint (mMaxBits s))))\<rparr>"
    by (simp add: skip_def clamp_def ssum scap max.commute)
  let ?v = "max 0 (min (uint (mCursor s) + sint delta) (uint (mMaxBits s)))"
  have "0 \<le> ?v" "?v < 2 ^ 32" using capi by simp_all
  then have "?v mod 2 ^ 32 = ?v" by simp
  then show "uint (mCursor (skip s delta)) = ?v" unfolding eq by (simp add: uint_word_of_int)
qed

lemma div_mult_add_less:
  fixes q B r :: nat
  assumes "r < B"
  shows "(q * B + r) div B = q"
proof -
  from assms have "0 < B" by simp
  then have "(q * B + r) div B = q + r div B" by (subst div_mult_self3) simp_all
  with assms show ?thesis by simp
qed

lemma roundup_nat:
  fixes c B :: nat
  assumes "0 < B" and "0 < c"
  shows "c + (B - ((c - 1) mod B + 1)) = (c + B - 1) div B * B"
proof -
  define q where "q = (c - 1) div B"
  define r where "r = (c - 1) mod B"
  have r: "r < B" using assms(1) by (simp add: r_def)
  have "c - 1 = q * B + r" by (simp add: q_def r_def)
  with assms(2) have c: "c = q * B + r + 1" by simp
  have "c + B - 1 = (q + 1) * B + r" unfolding c by simp
  then have "(c + B - 1) div B = q + 1" using div_mult_add_less [OF r, of "q + 1"] by simp
  then have "(c + B - 1) div B * B = q * B + B" by simp
  moreover from r have "c + (B - (r + 1)) = q * B + B" unfolding c by simp
  ultimately show ?thesis by (simp add: r_def)
qed

lemma roundup_fix:
  fixes c B :: nat
  assumes "0 < B" and "B dvd c"
  shows "(c + B - 1) div B * B = c"
proof -
  from assms(2) obtain q where c: "c = B * q" ..
  from assms(1) have "B * q + B - 1 = q * B + (B - 1)" by (simp add: mult.commute)
  moreover from assms(1) have "B - 1 < B" by simp
  ultimately have "(B * q + B - 1) div B = q" using div_mult_add_less [of "B - 1" B q] by simp
  then show ?thesis unfolding c by simp
qed

lemma roundup_ge:
  fixes c B :: nat
  assumes "0 < B"
  shows "c \<le> (c + B - 1) div B * B"
proof (cases "c = 0")
  case True then show ?thesis by simp
next
  case False
  then have "0 < c" by simp
  from roundup_nat [OF assms this] show ?thesis by linarith
qed

lemma roundup_dvd:
  fixes c B :: nat
  shows "B dvd (c + B - 1) div B * B"
  by simp

lemma pow2_lt: "n < 32 \<Longrightarrow> (2 ^ n :: nat) < 2 ^ 32"
  by (rule power_strict_increasing) simp_all

lemma unat_pow2: "n < 32 \<Longrightarrow> unat (2 ^ n :: uint32) = 2 ^ n"
proof -
  assume n: "n < 32"
  have "(2 ^ n :: uint32) = of_nat (2 ^ n)" by simp
  also have "unat (of_nat (2 ^ n) :: uint32) = 2 ^ n mod 2 ^ 32" by (simp only: unat_of_nat) simp
  also have "\<dots> = 2 ^ n" using pow2_lt [OF n] by (rule mod_less)
  finally show ?thesis .
qed

lemma align_delta:
  fixes c :: uint32
  assumes "k + 3 < 32"
  shows "unat c + unat ((2 ^ k * 8 :: uint32) - (((c - 1) AND (2 ^ k * 8 - 1)) + 1))
         = (unat c + 8 * 2 ^ k - 1) div (8 * 2 ^ k) * (8 * 2 ^ k)"
proof -
  let ?n = "k + 3"
  let ?B = "8 * 2 ^ k :: nat"
  have B: "?B = 2 ^ ?n" by (simp add: power_add)
  have bits: "(2 ^ k * 8 :: uint32) = 2 ^ ?n" by (simp add: power_add)
  have ubits: "unat (2 ^ ?n :: uint32) = 2 ^ ?n" using assms by (rule unat_pow2)
  have msk: "(2 ^ ?n - 1 :: uint32) = mask ?n" by (simp add: mask_eq_exp_minus_1)
  have A: "(c - 1) AND mask ?n = take_bit ?n (c - 1)" by (simp add: take_bit_eq_mask)
  have uA: "unat (take_bit ?n (c - 1)) = unat (c - 1) mod 2 ^ ?n"
    by (subst unsigned_take_bit_eq) (simp add: take_bit_eq_mod)
  have Bpos: "0 < (2 ^ ?n :: nat)" by simp
  have Blt: "(2 ^ ?n :: nat) < 2 ^ 32" using assms by (rule pow2_lt)
  show ?thesis
  proof (cases "c = 0")
    case True
    have "take_bit ?n (- 1 :: uint32) = mask ?n" using assms by (simp add: take_bit_minus_one_eq_mask)
    then have "take_bit ?n (c - 1) + 1 = (2 ^ ?n :: uint32)"
      using True by (simp add: mask_eq_exp_minus_1)
    then show ?thesis unfolding bits msk A B using True by simp
  next
    case False
    then have cpos: "0 < unat c" by (simp add: unat_gt_0)
    from False have ux: "unat (c - 1) = unat c - 1" by (simp add: unat_minus_one)
    let ?a = "(unat c - 1) mod 2 ^ ?n"
    have a: "?a < 2 ^ ?n" by simp
    have uA': "unat (take_bit ?n (c - 1)) = ?a" by (simp add: uA ux)
    from a Blt have "?a + 1 < 2 ^ 32" by linarith
    then have "unat (take_bit ?n (c - 1)) + unat (1 :: uint32) < 2 ^ 32" by (simp only: uA' unat_1)
    then have uA1: "unat (take_bit ?n (c - 1) + 1) = ?a + 1"
      by (simp add: unat_add_lem [THEN iffD1] uA')
    from a have "?a + 1 \<le> 2 ^ ?n" by linarith
    then have "take_bit ?n (c - 1) + 1 \<le> (2 ^ ?n :: uint32)"
      by (simp only: word_le_nat_alt uA1 ubits)
    then have "unat ((2 ^ ?n :: uint32) - (take_bit ?n (c - 1) + 1)) = 2 ^ ?n - (?a + 1)"
      by (simp only: unat_sub uA1 ubits)
    with roundup_nat [OF Bpos cpos] show ?thesis unfolding bits msk A B by simp
  qed
qed

lemma roundup_le:
  fixes c B :: nat
  assumes "0 < B"
  shows "(c + B - 1) div B * B \<le> c + B - 1"
  by (rule div_times_less_eq_dividend)

lemma clamp_nat: "max 0 (min (int a) (int b)) = int (min a b)"
  by simp

lemma align_pow2:
  assumes cur: "mCursor s \<le> mMaxBits s" and fit: "unat (mMaxBits s) + 8 * 2 ^ k < 2 ^ 31"
  shows "align s (2 ^ k) =
         s\<lparr>mCursor := word_of_nat (min ((unat (mCursor s) + 8 * 2 ^ k - 1) div (8 * 2 ^ k) * (8 * 2 ^ k))
                                   (unat (mMaxBits s)))\<rparr>"
proof -
  let ?B = "8 * 2 ^ k :: nat"
  let ?R = "(unat (mCursor s) + ?B - 1) div ?B * ?B"
  let ?d = "(2 ^ k * 8 :: uint32) - (((mCursor s - 1) AND (2 ^ k * 8 - 1)) + 1)"
  from fit have "(2::nat) ^ (k + 3) < 2 ^ 31" by (simp add: power_add)
  then have "k + 3 < 31" by (simp only: power_strict_increasing_iff one_less_numeral_iff semiring_norm)
  then have k3: "k + 3 < 32" and k32: "k < 32" by simp_all
  have "(2 ^ k :: uint32) \<noteq> 0"
  proof
    assume "(2 ^ k :: uint32) = 0"
    then have "unat (2 ^ k :: uint32) = unat (0 :: uint32)" by (rule arg_cong)
    then have "(2 ^ k :: nat) = 0" by (simp only: unat_pow2 [OF k32] unat_0)
    then show False by simp
  qed
  then have al: "align s (2 ^ k) = skip s ?d" by (simp add: align_def Let_def)
  note R = align_delta [OF k3, of "mCursor s"]
  have Bpos: "0 < ?B" by simp
  from cur have cle: "unat (mCursor s) \<le> unat (mMaxBits s)" by (simp add: word_le_nat_alt)
  from roundup_le [OF Bpos, of "unat (mCursor s)"] cle fit have Rlt: "?R < 2 ^ 31" by linarith
  from R have dle: "unat ?d \<le> ?R" by linarith
  with Rlt have "unat ?d < 2 ^ 31" by linarith
  then have "int (unat ?d) < int (2 ^ 31)" by (simp only: of_nat_less_iff)
  then have "uint ?d < 2 ^ 31" by simp
  then have sd: "sint ?d = uint ?d" by (rule sint_of_small)
  have "uint (mCursor s) + uint ?d = int (unat (mCursor s) + unat ?d)"
    by (simp only: uint_nat of_nat_add)
  then have sum: "uint (mCursor s) + sint ?d = int ?R"
    by (simp only: sd R)
  from Rlt have "int ?R < int (2 ^ 31)" by (simp only: of_nat_less_iff)
  then have h3: "uint (mCursor s) + sint ?d < 2 ^ 31" unfolding sum by simp
  from fit have h2: "unat (mMaxBits s) < 2 ^ 31" by linarith
  have "uint (mMaxBits s) = int (unat (mMaxBits s))" by (simp only: uint_nat)
  then have "max 0 (min (int ?R) (uint (mMaxBits s))) = int (min ?R (unat (mMaxBits s)))"
    by (simp only: clamp_nat)
  with skip_cursor(1) [OF cur h2 h3] show ?thesis unfolding al sum by (simp only: of_int_of_nat_eq)
qed

lemma align_wraps:
  "tell (align (seek (Bitstream_external [0, 0, 0, 0, 0] 40) 9) 0x20000000) = 0"
  by code_simp

lemma skip_large_capacity:
  "tell (skip (seek (Bitstream_external [] 0x80000000) 5) 1) = 0"
  by code_simp

lemma bool_writes_at_frame:
  assumes "valid s" and "pos \<le> mMaxBits s" and "vs \<noteq> []"
    and "run s (bool_writes_at pos junk vs) = Inr s'"
  shows "getBit (mData s') (unat pos) = last vs \<and>
         (\<forall>i. i < 8 * length (mData s) \<and> i \<noteq> unat pos \<longrightarrow>
              getBit (mData s') i = getBit (mData s) i)"
  using assms
proof (induction vs arbitrary: s)
  case Nil
  then show ?case by simp
next
  case (Cons v vs)
  from run_bool_writes_at_Cons [OF Cons.prems(4)] obtain s1 where
    w: "write_bool (seek s pos) junk v = Inr s1"
    and r: "run s1 (bool_writes_at pos junk vs) = Inr s'"
    by blast
  from Cons.prems(2) have cur: "mCursor (seek s pos) = pos" by (simp add: seek_def min_def)
  have dat: "mData (seek s pos) = mData s" by (simp add: seek_def)
  have cap: "mMaxBits (seek s pos) = mMaxBits s" by (simp add: seek_def)
  note f = write_bool_frame [OF seek_valid [OF Cons.prems(1)] w, unfolded cur dat]
  show ?case
  proof (cases "vs = []")
    case True
    with r have "s' = s1" by (simp add: bool_writes_at_def)
    with f True show ?thesis by simp
  next
    case False
    from write_bool_valid [OF w seek_valid [OF Cons.prems(1)]] have v1: "valid s1" .
    from write_bool_capacity [OF w] cap have "mMaxBits s \<le> mMaxBits s1" by simp
    with Cons.prems(2) have p1: "pos \<le> mMaxBits s1" by (rule order_trans)
    note ih = Cons.IH [OF v1 p1 False r]
    from f have len: "length (mData s) \<le> length (mData s1)" by simp
    have "getBit (mData s') i = getBit (mData s) i"
      if "i < 8 * length (mData s)" "i \<noteq> unat pos" for i
    proof -
      from that(1) len have "i < 8 * length (mData s1)" by simp
      with ih that(2) have "getBit (mData s') i = getBit (mData s1) i" by simp
      also from f that have "\<dots> = getBit (mData s) i" by simp
      finally show ?thesis .
    qed
    with ih False show ?thesis by simp
  qed
qed

lemma write_bool_total:
  assumes "mCursor s < mMaxBits s" and "unat (mMaxBits s) \<le> 8 * length (mData s)"
  shows "\<exists>s'. write_bool s junk v = Inr s' \<and> mMaxBits s' = mMaxBits s \<and>
              length (mData s') = length (mData s)"
proof -
  from assms(1) have "mCursor s + 1 \<le> mMaxBits s" by (rule inc_le)
  then have "\<not> mMaxBits s < mCursor s + 1" by (simp only: not_less)
  then have r: "reallocIfNeeded s junk (mCursor s + 1) = Inr s"
    by (simp add: reallocIfNeeded_def)
  from assms(1) have "unat (mCursor s) < unat (mMaxBits s)" by (simp add: word_less_nat_alt)
  with assms(2) have k: "unat (mCursor s) div 8 < length (mData s)" by linarith
  show ?thesis
    unfolding write_bool_def r sum.case Let_def unat_quantIndex using k by simp
qed

lemma run_bool_writes_at_total:
  assumes "pos < mMaxBits s" and "unat (mMaxBits s) \<le> 8 * length (mData s)"
  shows "\<exists>s'. run s (bool_writes_at pos junk vs) = Inr s'"
  using assms
proof (induction vs arbitrary: s)
  case Nil
  then show ?case by (simp add: bool_writes_at_def)
next
  case (Cons v vs)
  let ?t = "seek s pos"
  from Cons.prems(1) have "pos \<le> mMaxBits s" by (rule less_imp_le)
  then have c: "mCursor ?t = pos" by (simp add: seek_def min_def)
  have m: "mMaxBits ?t = mMaxBits s" and d: "mData ?t = mData s" by (simp_all add: seek_def)
  from Cons.prems have a: "mCursor ?t < mMaxBits ?t" and b: "unat (mMaxBits ?t) \<le> 8 * length (mData ?t)"
    by (simp_all add: c m d)
  from write_bool_total [OF a b, of junk v] obtain s1 where
    w: "write_bool ?t junk v = Inr s1" and m1: "mMaxBits s1 = mMaxBits s"
    and l1: "length (mData s1) = length (mData s)"
    by (auto simp: m d)
  from Cons.prems m1 l1 have "pos < mMaxBits s1" "unat (mMaxBits s1) \<le> 8 * length (mData s1)"
    by simp_all
  from Cons.IH [OF this] obtain s' where "run s1 (bool_writes_at pos junk vs) = Inr s'" ..
  with w have "run s (bool_writes_at pos junk (v # vs)) = Inr s'"
    by (simp add: bool_writes_at_def)
  then show ?case ..
qed

section \<open>Round trip and frame of writeBits\<close>

text \<open>
  The two stores of the loop of \<open>writeBits\<close>, with \<open>destMask = 0xFF\<close> as the source
  computes it: the first ORs the shifted quantum onto the whole old byte, the second
  replaces the whole next byte.
\<close>

lemma mask255: "(255 :: uint32) = mask 8"
  by (simp add: mask_eq_exp_minus_1)

lemma destMask_value: "(push_bit (unat BITS_PER_QUANT) 1 - 1 :: uint32) = 255"
  by simp

lemma writeLoop_first_store:
  "(ucast (push_bit m (ucast (q :: QuantType) :: uint32) OR (ucast (b :: QuantType) AND 255))
      :: QuantType) = push_bit m q OR b"
  unfolding mask255 by (rule bit_word_eqI) (auto simp: bit_simps)

lemma writeLoop_second_store:
  "(ucast (drop_bit w (ucast (q :: QuantType) :: uint32) OR (ucast (b :: QuantType) AND NOT 255))
      :: QuantType) = drop_bit w q"
  unfolding mask255 by (rule bit_word_eqI) (auto simp: bit_simps dest: bit_imp_le_length)

text \<open>
  C1. Round trip: writing a value at the cursor, seeking back and reading the same
  number of bits should give the value back. It does not: \<open>destMask\<close> is
  \<open>(1 << BITS_PER_QUANT) - 1 = 0xFF\<close>, so the first store of the loop ORs the new
  bits onto the old byte instead of replacing them. On a default stream, after
  \<open>write<uint8_t>(0xFF)\<close> and \<open>seek(3)\<close>, \<open>writeBits\<close> of the 8-bit value \<open>0x00\<close>,
  \<open>seek(3)\<close> and \<open>readBits\<close> of 8 bits give \<open>0x1F\<close>.
\<close>

theorem C1_roundtrip_broken:
  "(case write_value Bitstream_default (\<lambda>_. 0) [0xFF] of
      Inl e \<Rightarrow> Inl e
    | Inr s1 \<Rightarrow>
        (case writeBits (seek s1 3) (\<lambda>_. 0) [0x00] 8 of
           Inl e \<Rightarrow> Inl e
         | Inr s2 \<Rightarrow> map_sum id snd (readBits (seek s2 3) [0x00] 8)))
   = Inr [0x1F]"
  by code_simp

text \<open>
  C2. Frame of \<open>writeBits\<close>: bits outside \<open>[cursor, cursor + count)\<close> should keep
  their value and the bits inside should be replaced. Neither holds: with both bytes
  \<open>0xFF\<close> and the cursor at 3, writing the 8-bit value \<open>0x00\<close> leaves byte 0 at
  \<open>0xFF\<close> (bits 3..7 are not replaced) and sets byte 1 to \<open>0x00\<close> (bits 11..15,
  outside the range, are cleared, since \<open>~destMask\<close> keeps nothing of the byte).
\<close>

theorem C2_frame_broken:
  "(case write_value Bitstream_default (\<lambda>_. 0) [0xFF, 0xFF] of
      Inl e \<Rightarrow> Inl e
    | Inr s1 \<Rightarrow>
        map_sum id (\<lambda>s2. take 2 (mData s2)) (writeBits (seek s1 3) (\<lambda>_. 0) [0x00] 8))
   = Inr [0xFF, 0x00]"
  by code_simp

section \<open>State invariants\<close>

text \<open>
  C4. After construction and after every operation that returns (no assertion failed,
  no access left its buffer), the length is at most the capacity and the cursor lies
  between 0 and the capacity. Operations: \<open>writeBits\<close>, \<open>readBits\<close>, the typed and
  the boolean \<open>write\<close> and \<open>read\<close>, \<open>skip\<close>, \<open>seek\<close> and \<open>align\<close>, in any
  number and order, after any of the three constructors.
\<close>

theorem C4_invariants:
  assumes "exec c ops = Inr s"
  shows "mNumBits s \<le> mMaxBits s \<and> 0 \<le> uint (mCursor s) \<and> mCursor s \<le> mMaxBits s"
proof -
  from assms obtain s0 where c: "construct c = Inr s0" and r: "run s0 ops = Inr s"
    by (cases "construct c") (simp_all add: exec_def)
  from run_valid [OF r construct_valid [OF c]] show ?thesis by (simp add: valid_def)
qed

theorem C4_invariants_witness:
  "exec (CtorCapacity (\<lambda>_. 0) 1)
     [OpWriteValue (\<lambda>_. 0) [0xAB, 0xCD], OpWriteBool (\<lambda>_. 0) True,
      OpWriteBits (\<lambda>_. 0) [0x05] 3, OpSeek 4, OpReadBits [0] 7, OpReadBool,
      OpSkip (- 1000), OpReadValue [0], OpAlign 4, OpSkip 1000]
   = Inr \<lparr>mData = [0xAB, 0xCD, 0x0B, 0, 0, 0, 0], mMaxBits = 56, mNumBits = 20,
          mOwnsMemory = True, mCursor = 56\<rparr>
   \<and> (20 :: uint32) \<le> 56 \<and> (0 :: int) \<le> uint (56 :: uint32) \<and> (56 :: uint32) \<le> 56"
proof -
  have e: "exec (CtorCapacity (\<lambda>_. 0) 1)
     [OpWriteValue (\<lambda>_. 0) [0xAB, 0xCD], OpWriteBool (\<lambda>_. 0) True,
      OpWriteBits (\<lambda>_. 0) [0x05] 3, OpSeek 4, OpReadBits [0] 7, OpReadBool,
      OpSkip (- 1000), OpReadValue [0], OpAlign 4, OpSkip 1000]
   = Inr \<lparr>mData = [0xAB, 0xCD, 0x0B, 0, 0, 0, 0], mMaxBits = 56, mNumBits = 20,
          mOwnsMemory = True, mCursor = 56\<rparr>"
    by code_simp
  from C4_invariants [OF e] e show ?thesis by simp
qed

section \<open>Growth of a self-owned buffer\<close>

text \<open>
  C3, as stated, fails where the 32-bit arithmetic wraps: for a default stream and a
  requirement of \<open>0xC0000000\<close> bits, \<open>numBits + 4 * BITS_PER_QUANT + numBits / 2\<close>
  wraps to \<open>0x20000020\<close>, the assertion of \<open>realloc\<close> passes, and the new capacity
  of 536870944 bits is below the 3221225472 bits required.
\<close>

theorem C3_growth_counterexample:
  "map_sum id (\<lambda>s. unat (mMaxBits s)) (reallocIfNeeded Bitstream_default (\<lambda>_. 0) 0xC0000000)
     = Inr 536870944
   \<and> (536870944 :: nat) < unat (0xC0000000 :: uint32)"
  by (simp add: reallocIfNeeded_def realloc_def Bitstream_default_def Let_def
      divideAndRoundUp_def BITS_PER_QUANT_def BYTES_PER_QUANT_def)

text \<open>
  C3, amended. For a self-owned stream in a valid state, a requirement \<open>n\<close> above the
  capacity, and no 32-bit wrap-around (\<open>n + 32 + n / 2\<close> rounded up to a multiple of 8
  is below \<open>2 ^ 32\<close>): \<open>reallocIfNeeded\<close> returns, the new capacity is
  \<open>n + 32 + n / 2\<close> rounded up to a multiple of 8, the old buffer had
  \<open>ceil(oldCapacity / 8)\<close> bytes and they are the first bytes of the new buffer, and a
  \<open>writeBits\<close> that needs \<open>n\<close> bits ends with that capacity. Over any sequence of
  operations that returns, the capacity never decreases.
\<close>

theorem C3_growth:
  assumes "valid s" and "mOwnsMemory s" and "mMaxBits s < n"
    and "(unat n + 32 + unat n div 2 + 7) div 8 * 8 < 2 ^ 32"
  shows "(\<exists>s1. reallocIfNeeded s junk n = Inr s1 \<and>
            unat (mMaxBits s1) = (unat n + 32 + unat n div 2 + 7) div 8 * 8 \<and>
            length (mData s) = (unat (mMaxBits s) + 7) div 8 \<and>
            take ((unat (mMaxBits s) + 7) div 8) (mData s1) = mData s \<and>
            (\<forall>data count s'. count \<noteq> 0 \<and> mCursor s + count = n \<and>
                writeBits s junk data count = Inr s' \<longrightarrow> mMaxBits s' = mMaxBits s1)) \<and>
         (\<forall>ops s'. run s ops = Inr s' \<longrightarrow> mMaxBits s \<le> mMaxBits s')"
proof -
  from reallocIfNeeded_grows [OF assms] obtain s1 where
    r: "reallocIfNeeded s junk n = Inr s1"
    and c: "unat (mMaxBits s1) = (unat n + 32 + unat n div 2 + 7) div 8 * 8"
    by blast
  from assms(1,2) have "8 * length (mData s) = unat (mMaxBits s)" by (simp add: valid_def)
  then have len: "length (mData s) = (unat (mMaxBits s) + 7) div 8" by linarith
  from reallocIfNeeded_prefix [OF r assms(1)] len
  have pre: "take ((unat (mMaxBits s) + 7) div 8) (mData s1) = mData s" by simp
  have w: "mMaxBits s' = mMaxBits s1"
    if "count \<noteq> 0" "mCursor s + count = n" "writeBits s junk data count = Inr s'"
    for data count s'
  proof -
    from writeBits_Inr [OF that(3,1)] obtain s2 buf where
      "reallocIfNeeded s junk (mCursor s + count) = Inr s2"
      "s' = s2\<lparr>mData := buf, mCursor := mCursor s + count,
                   mNumBits := max (mNumBits s) (mCursor s + count)\<rparr>"
      by blast
    with r that(2) show ?thesis by simp
  qed
  from r c len pre w run_capacity show ?thesis by blast
qed

theorem C3_growth_witness:
  "(\<exists>s1. reallocIfNeeded
           \<lparr>mData = [0xAB, 0, 0, 0, 0, 0], mMaxBits = 48, mNumBits = 8, mOwnsMemory = True, mCursor = 8\<rparr>
           (\<lambda>_. 0xEE) 100 = Inr s1 \<and>
         unat (mMaxBits s1) = 184 \<and> take 6 (mData s1) = [0xAB, 0, 0, 0, 0, 0]) \<and>
   run \<lparr>mData = [0xAB, 0, 0, 0, 0, 0], mMaxBits = 48, mNumBits = 8, mOwnsMemory = True, mCursor = 8\<rparr>
     [OpWriteBits (\<lambda>_. 0xEE) [1, 2, 3, 4, 5, 6] 48]
     = Inr \<lparr>mData = [0xAB, 1, 2, 3, 4, 5, 6, 0xEE, 0xEE, 0xEE, 0xEE, 0xEE, 0xEE, 0xEE, 0xEE],
            mMaxBits = 120, mNumBits = 56, mOwnsMemory = True, mCursor = 56\<rparr> \<and>
   (48 :: uint32) \<le> 120"
proof -
  let ?S = "\<lparr>mData = [0xAB, 0, 0, 0, 0, 0], mMaxBits = 48, mNumBits = 8, mOwnsMemory = True, mCursor = 8\<rparr>"
  have v: "valid ?S" by (simp add: valid_def)
  have o: "mOwnsMemory ?S" by simp
  have lt: "mMaxBits ?S < 100" by simp
  have nf: "(unat (100 :: uint32) + 32 + unat (100 :: uint32) div 2 + 7) div 8 * 8 < 2 ^ 32" by simp
  note g = C3_growth [OF v o lt nf, of "\<lambda>_. 0xEE"]
  have r: "run ?S [OpWriteBits (\<lambda>_. 0xEE) [1, 2, 3, 4, 5, 6] 48]
     = Inr \<lparr>mData = [0xAB, 1, 2, 3, 4, 5, 6, 0xEE, 0xEE, 0xEE, 0xEE, 0xEE, 0xEE, 0xEE, 0xEE],
            mMaxBits = 120, mNumBits = 56, mOwnsMemory = True, mCursor = 56\<rparr>"
    by code_simp
  from g have a: "\<exists>s1. reallocIfNeeded ?S (\<lambda>_. 0xEE) 100 = Inr s1 \<and>
         unat (mMaxBits s1) = 184 \<and> take 6 (mData s1) = [0xAB, 0, 0, 0, 0, 0]"
    by (elim conjE exE) (rule exI, simp)
  from g r have "mMaxBits ?S \<le> 120" by fastforce
  with a r show ?thesis by simp
qed

section \<open>External buffers\<close>

text \<open>
  C8, as stated, fails where the end position wraps: on an external buffer of 16 bits
  with the cursor at 8, a \<open>writeBits\<close> of \<open>0xFFFFFFFC\<close> bits ends beyond the 16 bits,
  but \<open>mCursor + count\<close> wraps to 4, \<open>reallocIfNeeded\<close> asserts nothing, and the
  \<open>memcpy\<close> of 536870911 bytes to byte 1 runs past the two bytes of the buffer.
\<close>

theorem C8_external_counterexample:
  "writeBits (seek (Bitstream_external [0, 0] 16) 8) (\<lambda>_. 0) (replicate 536870912 0) 0xFFFFFFFC
   = Inl OutOfBounds"
  by (simp add: writeBits_def reallocIfNeeded_def seek_def Bitstream_external_def Let_def
      memcpy_def BITS_PER_QUANT_def BYTES_PER_QUANT_def BITS_PER_QUANT_LOG2_def drop_bit_eq_div)

text \<open>
  C8, amended. For a stream that does not own its buffer: over any sequence of
  operations that returns, the capacity, the ownership and the extent of the buffer
  stay as they are; and a \<open>writeBits\<close> of \<open>count > 0\<close> bits whose end position
  \<open>cursor + count\<close> exceeds the capacity and is below \<open>2 ^ 32\<close> fails the assertion of
  \<open>reallocIfNeeded\<close> before any byte is written.
\<close>

theorem C8_external:
  assumes "\<not> mOwnsMemory s"
  shows "(\<forall>ops s'. run s ops = Inr s' \<longrightarrow>
            mMaxBits s' = mMaxBits s \<and> \<not> mOwnsMemory s' \<and> length (mData s') = length (mData s)) \<and>
         (\<forall>junk data count. count \<noteq> 0 \<and> unat (mCursor s) + unat count < 2 ^ 32 \<and>
            unat (mMaxBits s) < unat (mCursor s) + unat count \<longrightarrow>
            writeBits s junk data count = Inl AssertFailed)"
proof -
  have a: "writeBits s junk data count = Inl AssertFailed"
    if "count \<noteq> 0" "unat (mCursor s) + unat count < 2 ^ 32"
      "unat (mMaxBits s) < unat (mCursor s) + unat count" for junk data count
  proof -
    from that(2) have "unat (mCursor s + count) = unat (mCursor s) + unat count"
      by (simp add: unat_add_lem [THEN iffD1])
    with that(3) have "mMaxBits s < mCursor s + count" by (simp add: word_less_nat_alt)
    with assms have "reallocIfNeeded s junk (mCursor s + count) = Inl AssertFailed"
      by (simp add: reallocIfNeeded_def)
    from writeBits_realloc_Inl [OF this that(1)] show ?thesis .
  qed
  from assms run_capacity a show ?thesis by blast
qed

theorem C8_external_witness:
  "\<not> mOwnsMemory (Bitstream_external [0, 0] 16) \<and>
   run (Bitstream_external [0, 0] 16) [OpWriteBits (\<lambda>_. 0) [0xAB, 0xCD] 16, OpSeek 0]
     = Inr \<lparr>mData = [0xAB, 0xCD], mMaxBits = 16, mNumBits = 16, mOwnsMemory = False, mCursor = 0\<rparr> \<and>
   writeBits (Bitstream_external [0, 0] 16) (\<lambda>_. 0) [1, 2, 3] 17 = Inl AssertFailed"
proof -
  have o: "\<not> mOwnsMemory (Bitstream_external [0, 0] 16)" by (simp add: Bitstream_external_def)
  have r: "run (Bitstream_external [0, 0] 16) [OpWriteBits (\<lambda>_. 0) [0xAB, 0xCD] 16, OpSeek 0]
     = Inr \<lparr>mData = [0xAB, 0xCD], mMaxBits = 16, mNumBits = 16, mOwnsMemory = False, mCursor = 0\<rparr>"
    by code_simp
  have h: "(17 :: uint32) \<noteq> 0 \<and> unat (mCursor (Bitstream_external [0, 0] 16)) + unat (17 :: uint32) < 2 ^ 32 \<and>
      unat (mMaxBits (Bitstream_external [0, 0] 16)) < unat (mCursor (Bitstream_external [0, 0] 16)) + unat (17 :: uint32)"
    by (simp add: Bitstream_external_def)
  from C8_external [OF o] h have "writeBits (Bitstream_external [0, 0] 16) (\<lambda>_. 0) [1, 2, 3] 17 = Inl AssertFailed"
    by blast
  with o r show ?thesis by simp
qed

section \<open>The boolean write\<close>

text \<open>
  C7. \<open>write(const bool&)\<close> sets or clears exactly the bit at the cursor. For a stream
  in a valid state and any non-empty sequence of boolean writes at one bit position
  \<open>pos\<close> within the capacity (\<open>true\<close> then \<open>false\<close>, or any other sequence), if the
  writes return then the bit at \<open>pos\<close> holds the last value written and every other
  bit of the buffer, the neighbours included, has the value it had before. The writes
  do return when \<open>pos\<close> is below the capacity and the buffer has the bytes of the
  capacity.
\<close>

theorem C7_bool_write_isolated:
  assumes "valid s" and "pos \<le> mMaxBits s" and "vs \<noteq> []"
  shows "(\<forall>s'. run s (bool_writes_at pos junk vs) = Inr s' \<longrightarrow>
            getBit (mData s') (unat pos) = last vs \<and>
            (\<forall>i. i < 8 * length (mData s) \<and> i \<noteq> unat pos \<longrightarrow>
                 getBit (mData s') i = getBit (mData s) i)) \<and>
         (pos < mMaxBits s \<and> unat (mMaxBits s) \<le> 8 * length (mData s) \<longrightarrow>
            (\<exists>s'. run s (bool_writes_at pos junk vs) = Inr s'))"
  using bool_writes_at_frame [OF assms] run_bool_writes_at_total [of pos s junk vs]
  by blast

theorem C7_bool_write_isolated_witness:
  "run \<lparr>mData = [0xA5, 0x5A], mMaxBits = 16, mNumBits = 16, mOwnsMemory = True, mCursor = 0\<rparr>
     (bool_writes_at 5 (\<lambda>_. 0) [True, False, True, False])
     = Inr \<lparr>mData = [0x85, 0x5A], mMaxBits = 16, mNumBits = 16, mOwnsMemory = True, mCursor = 6\<rparr> \<and>
   getBit [0x85, 0x5A] 5 = False \<and>
   map (getBit [0x85, 0x5A]) [0, 1, 2, 3, 4, 6, 7, 8, 9, 10, 11, 12, 13, 14, 15]
     = map (getBit [0xA5, 0x5A]) [0, 1, 2, 3, 4, 6, 7, 8, 9, 10, 11, 12, 13, 14, 15]"
proof -
  let ?S = "\<lparr>mData = [0xA5, 0x5A], mMaxBits = 16, mNumBits = 16, mOwnsMemory = True, mCursor = 0\<rparr>"
  let ?S' = "\<lparr>mData = [0x85, 0x5A], mMaxBits = 16, mNumBits = 16, mOwnsMemory = True, mCursor = 6\<rparr>"
  have v: "valid ?S" by (simp add: valid_def)
  have p: "5 \<le> mMaxBits ?S" by simp
  have n: "[True, False, True, False] \<noteq> []" by simp
  have r: "run ?S (bool_writes_at 5 (\<lambda>_. 0) [True, False, True, False]) = Inr ?S'"
    by code_simp
  from C7_bool_write_isolated [OF v p n, of "\<lambda>_. 0"] r
  have a: "getBit [0x85, 0x5A] 5 = False"
    and b: "\<And>i. i < 16 \<Longrightarrow> i \<noteq> 5 \<Longrightarrow> getBit [0x85, 0x5A] i = getBit [0xA5, 0x5A] i"
    by simp_all
  from r a b show ?thesis by simp
qed

section \<open>What readBits leaves in the destination\<close>

text \<open>
  C10. A \<open>readBits\<close> of a number of bits that is not a multiple of 8 stores whole
  bytes in the destination. If it returns, every bit \<open>j\<close> of the last byte it touched
  (byte \<open>count div 8\<close>) is, whatever the byte held before: the stream bit at
  \<open>cursor + 8 * (count div 8) + j\<close> when that bit is in the last source byte read or
  the loop also read the byte after it, and zero otherwise. So the bits at positions
  \<open>count mod 8\<close> and above are zeros or the stream bits that follow the requested
  range, never the previous content of the destination.
\<close>

theorem C10_read_overwrites_quantum:
  assumes "readBits s dest count = Inr (s', dest')" and "unat count mod 8 \<noteq> 0"
  shows "unat count div 8 < length dest' \<and>
     (\<forall>j<8. bit (dest' ! (unat count div 8)) j =
        ((unat (mCursor s) mod 8 + j < 8 \<or> 8 - unat (mCursor s) mod 8 < unat count mod 8) \<and>
         getBit (mData s) (unat (mCursor s) + 8 * (unat count div 8) + j)))"
proof -
  let ?m = "unat (mCursor s) mod 8" and ?q = "unat (mCursor s) div 8"
  let ?k = "unat count div 8" and ?r = "unat count mod 8"
  from readBits_last [OF assms]
  have k: "?k < length dest'" and q: "?q + ?k < length (mData s)"
    and q1: "8 - ?m < ?r \<longrightarrow> ?q + ?k + 1 < length (mData s)"
    and v: "dest' ! ?k = drop_bit ?m (mData s ! (?q + ?k)) OR
       (if 8 - ?m < ?r then push_bit (8 - ?m) (mData s ! (?q + ?k + 1)) else 0)"
    by simp_all
  have m8: "?m < 8" by simp
  have "bit (dest' ! ?k) j =
        ((?m + j < 8 \<or> 8 - ?m < ?r) \<and> getBit (mData s) (unat (mCursor s) + 8 * ?k + j))"
    if j: "j < 8" for j
  proof (cases "?m + j < 8")
    case True
    have pos: "unat (mCursor s) + 8 * ?k + j = 8 * (?q + ?k) + (?m + j)" by simp
    from divmod8 [OF True, of "?q + ?k"] q have g: "getBit (mData s) (unat (mCursor s) + 8 * ?k + j) = bit (mData s ! (?q + ?k)) (?m + j)"
      unfolding pos getBit_def by simp
    from True have "\<not> 8 - ?m \<le> j" by simp
    with True g show ?thesis unfolding v by (simp add: bit_simps)
  next
    case False
    have pos: "unat (mCursor s) + 8 * ?k + j = 8 * (?q + ?k + 1) + (?m + j - 8)"
      using False by simp
    from m8 j have "?m + j - 8 < 8" by simp
    from divmod8 [OF this, of "?q + ?k + 1"] have g: "getBit (mData s) (unat (mCursor s) + 8 * ?k + j) =
      (?q + ?k + 1 < length (mData s) \<and> bit (mData s ! (?q + ?k + 1)) (?m + j - 8))"
      unfolding pos getBit_def by simp
    from False have nb: "\<not> bit (mData s ! (?q + ?k)) (?m + j)"
      by (auto dest: bit_imp_le_length)
    from False m8 have sh: "8 - ?m \<le> j" "j - (8 - ?m) = ?m + j - 8" by simp_all
    from False g nb sh q1 j show ?thesis unfolding v by (auto simp: bit_simps)
  qed
  with k show ?thesis by simp
qed

theorem C10_read_overwrites_quantum_witness:
  "readBits \<lparr>mData = [0xD5, 0x3C], mMaxBits = 16, mNumBits = 16, mOwnsMemory = False, mCursor = 6\<rparr>
     [0xFF] 5
     = Inr (\<lparr>mData = [0xD5, 0x3C], mMaxBits = 16, mNumBits = 16, mOwnsMemory = False, mCursor = 11\<rparr>,
            [0xF3]) \<and>
   map (bit (0xF3 :: QuantType)) [0, 1, 2, 3, 4, 5, 6, 7]
     = map (getBit [0xD5, 0x3C]) [6, 7, 8, 9, 10, 11, 12, 13]"
proof -
  let ?S = "\<lparr>mData = [0xD5, 0x3C], mMaxBits = 16, mNumBits = 16, mOwnsMemory = False, mCursor = 6\<rparr>"
  let ?S' = "\<lparr>mData = [0xD5, 0x3C], mMaxBits = 16, mNumBits = 16, mOwnsMemory = False, mCursor = 11\<rparr>"
  have r: "readBits ?S [0xFF] 5 = Inr (?S', [0xF3])" by code_simp
  have n: "unat (5 :: uint32) mod 8 \<noteq> 0" by simp
  from C10_read_overwrites_quantum [OF r n]
  have b: "\<And>j. j < 8 \<Longrightarrow> bit (0xF3 :: QuantType) j = getBit [0xD5, 0x3C] (6 + j)"
    by simp
  from b [of 0] b [of 1] b [of 2] b [of 3] b [of 4] b [of 5] b [of 6] b [of 7]
  have "map (bit (0xF3 :: QuantType)) [0, 1, 2, 3, 4, 5, 6, 7]
     = map (getBit [0xD5, 0x3C]) [6, 7, 8, 9, 10, 11, 12, 13]"
    by simp
  with r show ?thesis by simp
qed

section \<open>Moving the cursor: skip, seek and align\<close>

text \<open>
  C6, as stated, fails where the signed 32-bit sum wraps: on a 16-bit buffer with the
  cursor at 5, \<open>skip(2147483647)\<close> computes \<open>(int32_t)5 + 2147483647\<close>, which wraps to
  a negative number, and the clamp gives 0; the claim gives \<open>5 + 2147483647\<close> clamped
  to \<open>[0, 16]\<close>, which is 16.
\<close>

theorem C6_skip_seek_counterexample:
  "tell (skip (seek (Bitstream_external [0, 0] 16) 5) 2147483647) = 0 \<and>
   max 0 (min (5 + 2147483647) 16) = (16 :: int)"
  by code_simp

text \<open>
  C6, amended. For every state and position \<open>seek(pos)\<close> sets the cursor to
  \<open>min(pos, capacity)\<close>; \<open>seek(capacity + 1000)\<close> leaves \<open>tell() = capacity\<close> whenever
  \<open>capacity + 1000\<close> does not wrap; \<open>skip(-1000)\<close> from position 5 leaves \<open>tell() = 0\<close>
  in every state; and neither \<open>skip\<close> nor \<open>seek\<close> ever changes the capacity or the
  buffer. For a state with the cursor within the capacity, a capacity below \<open>2 ^ 31\<close>
  and a signed delta with \<open>cursor + delta < 2 ^ 31\<close>, \<open>skip(delta)\<close> sets the cursor to
  \<open>cursor + delta\<close> clamped to \<open>[0, capacity]\<close>. (With a capacity of \<open>2 ^ 31\<close> bits or
  more the cast of \<open>mMaxBits\<close> to \<open>int32_t\<close> is negative: see \<open>skip_large_capacity\<close>.)
\<close>

theorem C6_skip_seek:
  "tell (seek s pos) = min pos (mMaxBits s) \<and>
   mMaxBits (seek s pos) = mMaxBits s \<and> mData (seek s pos) = mData s \<and>
   mMaxBits (skip s delta) = mMaxBits s \<and> mData (skip s delta) = mData s \<and>
   (unat (mMaxBits s) + 1000 < 2 ^ 32 \<longrightarrow> tell (seek s (mMaxBits s + 1000)) = mMaxBits s) \<and>
   (mCursor s = 5 \<longrightarrow> tell (skip s (- 1000)) = 0) \<and>
   (mCursor s \<le> mMaxBits s \<and> unat (mMaxBits s) < 2 ^ 31 \<and>
    uint (mCursor s) + sint delta < 2 ^ 31 \<longrightarrow>
      uint (tell (skip s delta)) =
        max 0 (min (uint (mCursor s) + sint delta) (uint (mMaxBits s))))"
proof -
  have a: "tell (seek s (mMaxBits s + 1000)) = mMaxBits s" if "unat (mMaxBits s) + 1000 < 2 ^ 32"
  proof -
    from that have "unat (mMaxBits s + 1000) = unat (mMaxBits s) + 1000"
      by (simp add: unat_add_lem [THEN iffD1])
    then have "mMaxBits s \<le> mMaxBits s + 1000" by (simp add: word_le_nat_alt)
    then show ?thesis by (simp add: tell_def seek_def min_def)
  qed
  have b: "tell (skip s (- 1000)) = 0" if "mCursor s = 5"
  proof -
    have "sint (5 + (- 1000) :: uint32) = - 995" by simp
    then show ?thesis using that by (simp add: tell_def skip_def clamp_def)
  qed
  have c: "uint (tell (skip s delta)) =
        max 0 (min (uint (mCursor s) + sint delta) (uint (mMaxBits s)))"
    if "mCursor s \<le> mMaxBits s" "unat (mMaxBits s) < 2 ^ 31"
      "uint (mCursor s) + sint delta < 2 ^ 31"
    using skip_cursor(2) [OF that] by (simp add: tell_def)
  have d: "tell (seek s pos) = min pos (mMaxBits s)" "mMaxBits (seek s pos) = mMaxBits s"
    "mData (seek s pos) = mData s" "mMaxBits (skip s delta) = mMaxBits s"
    "mData (skip s delta) = mData s"
    by (simp_all add: tell_def seek_def skip_def)
  from a b c d show ?thesis by blast
qed

theorem C6_skip_seek_witness:
  "uint (tell (skip (seek (Bitstream_external [0, 0] 16) 5) (- 3))) = 2 \<and>
   tell (seek (seek (Bitstream_external [0, 0] 16) 5) 1016) = 16 \<and>
   tell (skip (seek (Bitstream_external [0, 0] 16) 5) (- 1000)) = 0 \<and>
   tell (seek (Bitstream_external [] 0x80000000) 0x90000000) = 0x80000000 \<and>
   tell (seek (Bitstream_external [] 0x80000000) (0x80000000 + 1000)) = 0x80000000"
proof -
  let ?S = "seek (Bitstream_external [0, 0] 16) 5"
  let ?L = "Bitstream_external [] 0x80000000"
  have c: "mCursor ?S = 5" and m: "mMaxBits ?S = 16"
    by (simp_all add: seek_def Bitstream_external_def)
  have h: "mCursor ?S \<le> mMaxBits ?S \<and> unat (mMaxBits ?S) < 2 ^ 31 \<and>
           uint (mCursor ?S) + sint (- 3 :: uint32) < 2 ^ 31"
    by (simp add: c m)
  have w: "unat (mMaxBits ?S) + 1000 < 2 ^ 32" by (simp add: m)
  have ml: "mMaxBits ?L = 0x80000000" by (simp add: Bitstream_external_def)
  have wl: "unat (mMaxBits ?L) + 1000 < 2 ^ 32" by (simp add: ml)
  from C6_skip_seek [of ?S 1016 "- 3"] h w c m
  have small: "uint (tell (skip ?S (- 3))) = 2 \<and> tell (seek ?S 1016) = 16 \<and>
               tell (skip ?S (- 1000)) = 0"
    by simp
  from C6_skip_seek [of ?L "0x90000000" 0] wl ml
  have large: "tell (seek ?L 0x90000000) = 0x80000000 \<and>
               tell (seek ?L (0x80000000 + 1000)) = 0x80000000"
    by simp
  from small large show ?thesis by simp
qed

text \<open>
  C5, as stated, fails for a byte count that is not a power of two: the distance to the
  boundary is computed with the mask \<open>bits - 1\<close>. With \<open>align(3)\<close> at cursor 9 of a
  40-bit buffer the cursor goes to 32, which is not a multiple of 24.
\<close>

theorem C5_align_counterexample:
  "tell (align (seek (Bitstream_external [0, 0, 0, 0, 0] 40) 9) 3) = 32 \<and>
   \<not> (3 * 8 :: nat) dvd 32"
  by code_simp

text \<open>
  C5, amended. For a byte count that is a power of two, \<open>2 ^ k\<close>, a cursor within the
  capacity and \<open>capacity + 8 * 2 ^ k < 2 ^ 31\<close> (so that neither \<open>count * 8\<close> nor the
  signed sum of \<open>skip\<close> wraps; see \<open>align_wraps\<close>): \<open>align\<close> puts the cursor at the
  next multiple of \<open>8 * 2 ^ k\<close> bits at or after it, clamped to the capacity; a cursor
  already at such a multiple stays; \<open>align(0)\<close> changes nothing; a second \<open>align\<close>
  after the first changes nothing; capacity and buffer are untouched.
\<close>

theorem C5_align_power_of_two:
  assumes "mCursor s \<le> mMaxBits s" and "unat (mMaxBits s) + 8 * 2 ^ k < 2 ^ 31"
  shows "unat (tell (align s (2 ^ k))) =
           min ((unat (mCursor s) + 8 * 2 ^ k - 1) div (8 * 2 ^ k) * (8 * 2 ^ k)) (unat (mMaxBits s)) \<and>
         ((8 * 2 ^ k) dvd unat (mCursor s) \<longrightarrow> align s (2 ^ k) = s) \<and>
         align s 0 = s \<and>
         align (align s (2 ^ k)) (2 ^ k) = align s (2 ^ k) \<and>
         mMaxBits (align s (2 ^ k)) = mMaxBits s \<and> mData (align s (2 ^ k)) = mData s"
proof -
  let ?B = "8 * 2 ^ k :: nat"
  let ?R = "\<lambda>c. (c + ?B - 1) div ?B * ?B"
  let ?cap = "unat (mMaxBits s)"
  let ?c = "unat (mCursor s)"
  let ?s' = "align s (2 ^ k)"
  have Bpos: "0 < ?B" by simp
  note a = align_pow2 [OF assms]
  have capl: "?cap < 2 ^ 32" using unsigned_less [of "mMaxBits s"] by simp
  have ml: "min (?R ?c) ?cap < 2 ^ 32" using capl by simp
  have cur': "unat (mCursor ?s') = min (?R ?c) ?cap"
    unfolding a using ml by (simp add: unat_of_nat take_bit_nat_eq_self)
  have cap': "mMaxBits ?s' = mMaxBits s" and dat': "mData ?s' = mData s" unfolding a by simp_all
  have le': "mCursor ?s' \<le> mMaxBits ?s'" unfolding cap' by (simp add: word_le_nat_alt cur')
  have fixd: "?s' = s" if "?B dvd ?c"
  proof -
    from assms(1) have "?c \<le> ?cap" by (simp add: word_le_nat_alt)
    with roundup_fix [OF Bpos that] have "min (?R ?c) ?cap = ?c" by simp
    then show ?thesis unfolding a by simp
  qed
  have idem: "align ?s' (2 ^ k) = ?s'"
  proof -
    note a2 = align_pow2 [OF le', unfolded cap', OF assms(2)]
    have "min (?R (min (?R ?c) ?cap)) ?cap = min (?R ?c) ?cap"
    proof (cases "?R ?c \<le> ?cap")
      case True
      then have m: "min (?R ?c) ?cap = ?R ?c" by simp
      have "?B dvd ?R ?c" by simp
      from roundup_fix [OF Bpos this] True show ?thesis unfolding m by simp
    next
      case False
      then have m: "min (?R ?c) ?cap = ?cap" by simp
      from roundup_ge [OF Bpos, of ?cap] show ?thesis unfolding m by simp
    qed
    then have "align ?s' (2 ^ k) = ?s'\<lparr>mCursor := word_of_nat (min (?R ?c) ?cap)\<rparr>"
      unfolding a2 cur' by simp
    also have "\<dots> = ?s'" unfolding a by simp
    finally show ?thesis .
  qed
  have z: "align s 0 = s" by (simp add: align_def)
  from cur' fixd z idem cap' dat' show ?thesis by (simp add: tell_def)
qed

theorem C5_align_power_of_two_witness:
  "unat (tell (align (seek (Bitstream_external [0, 0, 0, 0, 0, 0, 0, 0, 0, 0] 80) 9) 4)) = 32 \<and>
   align (align (seek (Bitstream_external [0, 0, 0, 0, 0, 0, 0, 0, 0, 0] 80) 9) 4) 4
     = align (seek (Bitstream_external [0, 0, 0, 0, 0, 0, 0, 0, 0, 0] 80) 9) 4 \<and>
   align (seek (Bitstream_external [0, 0, 0, 0, 0, 0, 0, 0, 0, 0] 80) 9) 0
     = seek (Bitstream_external [0, 0, 0, 0, 0, 0, 0, 0, 0, 0] 80) 9"
proof -
  let ?S = "seek (Bitstream_external [0, 0, 0, 0, 0, 0, 0, 0, 0, 0] 80) 9"
  have c: "mCursor ?S = 9" and m: "mMaxBits ?S = 80"
    by (simp_all add: seek_def Bitstream_external_def)
  have h1: "mCursor ?S \<le> mMaxBits ?S" by (simp add: c m)
  have h2: "unat (mMaxBits ?S) + 8 * 2 ^ 2 < 2 ^ 31" by (simp add: m)
  from C5_align_power_of_two [OF h1 h2] c m show ?thesis by simp
qed

section \<open>The concrete scenario\<close>

text \<open>
  C9, as stated, fails: on a default stream, even when the allocator hands out
  zero-filled memory, after writing the 3-bit value \<open>0b101\<close> and the 5-bit value
  \<open>0b11010\<close> and seeking to 0, \<open>readBits\<close> of 3 bits stores \<open>0xD5\<close> in the
  destination byte, not \<open>0b101\<close>: \<open>readBits\<close> stores whole bytes and the five bits
  above the three requested are the stream bits that follow.
\<close>

theorem C9_scenario_counterexample:
  "(case writeBits Bitstream_default (\<lambda>_. 0) [0x05] 3 of
      Inl e \<Rightarrow> Inl e
    | Inr s1 \<Rightarrow>
        (case writeBits s1 (\<lambda>_. 0) [0x1A] 5 of
           Inl e \<Rightarrow> Inl e
         | Inr s2 \<Rightarrow> map_sum id snd (readBits (seek s2 0) [0x00] 3)))
   = Inr [0xD5] \<and>
   (0xD5 :: QuantType) \<noteq> 0x05"
  by code_simp

text \<open>
  C9, amended. On a default stream whose first allocation is zero-filled: after
  writing the 3-bit value \<open>0b101\<close> at bit 0 and the 5-bit value \<open>0b11010\<close> after it and
  seeking to 0, reading 3 bits stores \<open>0xD5\<close>, whose low 3 bits are \<open>0b101\<close>, reading
  5 bits then stores \<open>0b11010\<close>, and afterwards \<open>tell()\<close> is 8 and \<open>size()\<close> is 8.
\<close>

theorem C9_scenario:
  "(case writeBits Bitstream_default (\<lambda>_. 0) [0x05] 3 of
      Inl e \<Rightarrow> Inl e
    | Inr s1 \<Rightarrow>
        (case writeBits s1 (\<lambda>_. 0) [0x1A] 5 of
           Inl e \<Rightarrow> Inl e
         | Inr s2 \<Rightarrow>
             (case readBits (seek s2 0) [0x00] 3 of
                Inl e \<Rightarrow> Inl e
              | Inr (s3, d3) \<Rightarrow>
                  (case readBits s3 [0x00] 5 of
                     Inl e \<Rightarrow> Inl e
                   | Inr (s4, d4) \<Rightarrow>
                       Inr (d3, map (take_bit 3) d3, d4, tell s4, size_bits s4)))))
   = Inr ([0xD5], [0x05], [0x1A], 8, 8)"
  by code_simp

text \<open>
  Why the scenario is stated for zero-filled memory: the first \<open>writeBits\<close> ORs the
  value onto the byte the allocator handed out. With a block filled with \<open>0xFF\<close> the
  two reads give \<open>0xFF\<close> and \<open>0x1F\<close>.
\<close>

lemma scenario_on_uninitialised_memory:
  "(case writeBits Bitstream_default (\<lambda>_. 0xFF) [0x05] 3 of
      Inl e \<Rightarrow> Inl e
    | Inr s1 \<Rightarrow>
        (case writeBits s1 (\<lambda>_. 0xFF) [0x1A] 5 of
           Inl e \<Rightarrow> Inl e
         | Inr s2 \<Rightarrow>
             (case readBits (seek s2 0) [0x00] 3 of
                Inl e \<Rightarrow> Inl e
              | Inr (s3, d3) \<Rightarrow>
                  (case readBits s3 [0x00] 5 of
                     Inl e \<Rightarrow> Inl e
                   | Inr (s4, d4) \<Rightarrow> Inr (d3, d4)))))
   = Inr ([0xFF], [0x1F])"
  by code_simp

end
